theory Spec2Isabelle
  imports Complex_Main "HOL-Library.Sublist" "HOL-Library.Multiset" "HOL-Library.List_Lexorder"
    "HOL-Library.Char_ord"
begin

text \<open>
  A model of the knowledge base server \<open>claude-mcp-kb\<close>: the keyword search engine, the
  glob pattern matcher and the file filter of the GitHub synchronisation, the storage of
  the blocklist with its integrity hash, and a pass of the synchronisation. What the
  JavaScript runtime, the libraries and the network give (regular expressions, the
  SHA-256 digest, the timestamp test, the GitHub API, the file cache) is a parameter of
  the functions that use it. The definitions come first, then the facts about them,
  then the claims.
\<close>

section \<open>JavaScript strings and arrays\<close>

text \<open>
  Strings are lists of characters. The model covers ASCII text: \<open>toLowerCase\<close> maps
  the letters A to Z to a to z and leaves every other character alone, so lower-casing
  keeps the length of a string and offsets found in the lower-cased content are offsets
  of the original content.
\<close>

definition toLowerChar :: "char \<Rightarrow> char" where
  "toLowerChar c =
     (case map_of (zip ''ABCDEFGHIJKLMNOPQRSTUVWXYZ'' ''abcdefghijklmnopqrstuvwxyz'') c of
        Some l \<Rightarrow> l
      | None \<Rightarrow> c)"

definition toLowerCase :: "string \<Rightarrow> string" where
  "toLowerCase s = map toLowerChar s"

text \<open>\<open>s.includes(q)\<close>: \<open>q\<close> starts at some offset of \<open>s\<close>.\<close>

fun includes_str :: "string \<Rightarrow> string \<Rightarrow> bool" where
  "includes_str [] q = (q = [])"
| "includes_str (c # cs) q = (prefix q (c # cs) \<or> includes_str cs q)"

text \<open>\<open>s.indexOf(q)\<close>: the first offset at which \<open>q\<close> starts, \<open>-1\<close> when there is none.\<close>

fun indexOf :: "string \<Rightarrow> string \<Rightarrow> int" where
  "indexOf [] q = (if q = [] then 0 else - 1)"
| "indexOf (c # cs) q =
     (if prefix q (c # cs) then 0
      else (let i = indexOf cs q in if i < 0 then - 1 else i + 1))"

text \<open>
  \<open>s.split(sep)\<close> for a non-empty separator: scan from the left, cut at every
  occurrence of the separator and go on behind it. For the empty separator the result
  is the list of the single characters (the empty array for the empty string).
\<close>

function split_scan :: "string \<Rightarrow> string \<Rightarrow> string \<Rightarrow> string list" where
  "split_scan sep piece [] = [piece]"
| "split_scan sep piece (c # cs) =
     (if sep \<noteq> [] \<and> prefix sep (c # cs)
      then piece # split_scan sep [] (drop (length sep) (c # cs))
      else split_scan sep (piece @ [c]) cs)"
  by pat_completeness auto
termination
  by (relation "measure (\<lambda>(sep, piece, s). length s)") auto

definition split_str :: "string \<Rightarrow> string \<Rightarrow> string list" where
  "split_str s sep = (if sep = [] then map (\<lambda>c. [c]) s else split_scan sep [] s)"

text \<open>
  \<open>xs.slice(start, fin)\<close> of strings and arrays: a negative index counts from the
  end, both indices are clamped to the length, and an empty range gives the empty list.
\<close>

definition slice :: "'a list \<Rightarrow> int \<Rightarrow> int \<Rightarrow> 'a list" where
  "slice xs start fin =
     (let len = int (length xs);
          k = (if start < 0 then max (len + start) 0 else min start len);
          final = (if fin < 0 then max (len + fin) 0 else min fin len)
      in take (nat (final - k)) (drop (nat k) xs))"

text \<open>
  \<open>xs.sort(cmp)\<close>: the sort of ECMAScript 2019 and later is stable (the repository asks
  for Node.js 18 or later). It is modelled by insertion from the right: an element goes
  in front of the first later element that it does not have to follow.
\<close>

fun insert_sorted :: "('a \<Rightarrow> 'a \<Rightarrow> rat) \<Rightarrow> 'a \<Rightarrow> 'a list \<Rightarrow> 'a list" where
  "insert_sorted cmp x [] = [x]"
| "insert_sorted cmp x (y # ys) =
     (if cmp x y \<le> 0 then x # y # ys else y # insert_sorted cmp x ys)"

definition sort_cmp :: "('a \<Rightarrow> 'a \<Rightarrow> rat) \<Rightarrow> 'a list \<Rightarrow> 'a list" where
  "sort_cmp cmp xs = foldr (insert_sorted cmp) xs []"

section \<open>The search engine\<close>

record DocMetadata =
  fileType :: string
  lastModified :: string
  size_bytes :: nat
  hash_sha :: string

record IndexedDocument =
  doc_id :: string
  repoOwner :: string
  repoName :: string
  branch :: string
  filePath :: string
  content :: string
  metadata :: DocMetadata
  indexed :: string

text \<open>A relevance score is a JavaScript number; the scores that arise are \<open>k / 10\<close>
  for an integer \<open>k\<close>, or 1, and are modelled as rationals.\<close>

record SearchResult =
  document :: IndexedDocument
  score :: rat
  snippet :: string

text \<open>
  \<open>SearchEngine.documents\<close> is a \<open>Map\<close> from document ids to documents. A JavaScript
  \<open>Map\<close> iterates in insertion order, and setting a key that is present keeps its
  place: the map is an association list.
\<close>

type_synonym SearchEngine = "(string \<times> IndexedDocument) list"

fun map_set :: "('k \<times> 'v) list \<Rightarrow> 'k \<Rightarrow> 'v \<Rightarrow> ('k \<times> 'v) list" where
  "map_set [] k v = [(k, v)]"
| "map_set ((k', v') # m) k v =
     (if k' = k then (k, v) # m else (k', v') # map_set m k v)"

definition map_values :: "('k \<times> 'v) list \<Rightarrow> 'v list" where
  "map_values m = map snd m"

text \<open>\<open>addDocuments\<close>, as far as the map goes; the message that it writes to the
  console is part of the model of a synchronisation pass.\<close>

definition addDocuments :: "SearchEngine \<Rightarrow> IndexedDocument list \<Rightarrow> SearchEngine" where
  "addDocuments documents docs = fold (\<lambda>doc m. map_set m (doc_id doc) doc) docs documents"

text \<open>The body of the loop of \<open>search\<close>: the result pushed for one document, if any.\<close>

definition search_doc :: "string \<Rightarrow> IndexedDocument \<Rightarrow> SearchResult option" where
  "search_doc queryLower doc =
     (let contentLower = toLowerCase (content doc) in
      if includes_str contentLower queryLower then
        (let matches = int (length (split_str contentLower queryLower)) - 1;
             score = min (of_int matches / 10) 1;
             firstMatchIndex = indexOf contentLower queryLower;
             snippetStart = max 0 (firstMatchIndex - 100);
             snippetEnd = min (int (length (content doc))) (firstMatchIndex + 200);
             snippet = slice (content doc) snippetStart snippetEnd
         in Some \<lparr>document = doc, score = score, snippet = ''...'' @ snippet @ ''...''\<rparr>)
      else None)"

text \<open>The array \<open>results\<close> when the loop is over, in the order of the map.\<close>

definition search_results :: "SearchEngine \<Rightarrow> string \<Rightarrow> SearchResult list" where
  "search_results documents query =
     List.map_filter (search_doc (toLowerCase query)) (map_values documents)"

definition search :: "SearchEngine \<Rightarrow> string \<Rightarrow> int \<Rightarrow> SearchResult list" where
  "search documents query maxResults =
     slice (sort_cmp (\<lambda>a b. score b - score a) (search_results documents query)) 0 maxResults"

subsection \<open>The search contract in the words of the specification\<close>

text \<open>
  The count of non-overlapping occurrences of a query in a content, counted from the
  left: an occurrence is counted where it starts, and the count goes on behind it.
\<close>

function occurrenceCount :: "string \<Rightarrow> string \<Rightarrow> nat" where
  "occurrenceCount [] q = 0"
| "occurrenceCount (c # cs) q =
     (if q \<noteq> [] \<and> prefix q (c # cs)
      then Suc (occurrenceCount (drop (length q) (c # cs)) q)
      else occurrenceCount cs q)"
  by pat_completeness auto
termination
  by (relation "measure (\<lambda>(s, q). length s)") auto

text \<open>
  A set of offsets at which the query occurs in the content, no two of the occurrences
  overlapping.
\<close>

definition non_overlapping_occurrences :: "string \<Rightarrow> string \<Rightarrow> nat set \<Rightarrow> bool" where
  "non_overlapping_occurrences q s P =
     ((\<forall>i \<in> P. prefix q (drop i s)) \<and> (\<forall>i \<in> P. \<forall>j \<in> P. i < j \<longrightarrow> i + length q \<le> j))"


text \<open>A document with the given id and content, for the examples.\<close>

definition example_doc :: "string \<Rightarrow> string \<Rightarrow> IndexedDocument" where
  "example_doc i c =
     \<lparr>doc_id = i, repoOwner = ''o'', repoName = ''r'', branch = ''main'', filePath = i,
      content = c,
      metadata = \<lparr>fileType = ''md'', lastModified = [], size_bytes = length c, hash_sha = []\<rparr>,
      indexed = []\<rparr>"

section \<open>The pattern matcher of the GitHub synchronisation\<close>

text \<open>
  \<open>s.replace(/lit/g, rep)\<close> for a literal that is not empty: from the left, every
  occurrence of the literal is replaced and the scan goes on behind it.
\<close>

function replace_all :: "string \<Rightarrow> string \<Rightarrow> string \<Rightarrow> string" where
  "replace_all lit rep [] = []"
| "replace_all lit rep (c # cs) =
     (if lit \<noteq> [] \<and> prefix lit (c # cs)
      then rep @ replace_all lit rep (drop (length lit) (c # cs))
      else c # replace_all lit rep cs)"
  by pat_completeness auto
termination
  by (relation "measure (\<lambda>(lit, rep, s). length s)") auto

text \<open>The four replacements of \<open>matchPattern\<close>, in the order of the source.\<close>

definition regexPattern :: "string \<Rightarrow> string" where
  "regexPattern pattern =
     replace_all ''?'' ''.''
       (replace_all ''*'' ''[^/]*''
         (replace_all ''**'' ''.*''
           (replace_all ''.'' [CHR 0x5C, CHR ''.''] pattern)))"

text \<open>
  \<open>new RegExp(source).test(input)\<close> is the JavaScript runtime's. \<open>matchPattern\<close>
  takes it as a parameter \<open>rx\<close>, which gives the answer of \<open>test\<close> or the error
  that the constructor raises.
\<close>

definition matchPattern :: "(string \<Rightarrow> string \<Rightarrow> 'e + bool) \<Rightarrow> string \<Rightarrow> string \<Rightarrow> 'e + bool" where
  "matchPattern rx file_path pattern = rx (''^'' @ regexPattern pattern @ ''$'') file_path"

subsection \<open>A fragment of JavaScript's regular expressions\<close>

text \<open>
  The regular expressions that the four replacements produce from patterns of letters,
  digits, \<open>/\<close>, \<open>.\<close>, \<open>*\<close> and \<open>?\<close> are sequences of items between \<open>^\<close> and \<open>$\<close>:
  a character, an escaped syntax character, the dot (any character but a line
  terminator) and the class \<open>[^/]\<close>, each at most once followed by a star. A source
  outside this fragment is not interpreted.
\<close>

datatype rx_atom = Lit char | AnyChar | NotSlash

datatype rx_item = One rx_atom | Star rx_atom

datatype rx_error = OutsideFragment

definition syntax_chars :: "char list" where
  "syntax_chars = [CHR ''^'', CHR ''$'', CHR 0x5C, CHR ''.'', CHR ''*'', CHR ''+'', CHR ''?'',
     CHR ''('', CHR '')'', CHR ''['', CHR '']'', CHR ''{'', CHR ''}'', CHR ''|'']"

text \<open>One atom at the front of the source, and the rest of the source.\<close>

fun parse_atom :: "string \<Rightarrow> (rx_atom \<times> string) option" where
  "parse_atom [] = None"
| "parse_atom (c # cs) =
     (if c = CHR 0x5C then
        (case cs of
           [] \<Rightarrow> None
         | d # ds \<Rightarrow>
             if d \<in> set syntax_chars \<or> d = CHR ''/'' then Some (Lit d, ds) else None)
      else if c = CHR ''.'' then Some (AnyChar, cs)
      else if c = CHR ''['' then
        (if prefix ''^/]'' cs then Some (NotSlash, drop 3 cs) else None)
      else if c \<in> set syntax_chars then None
      else Some (Lit c, cs))"

lemma parse_atom_shorter: "parse_atom s = Some (a, r) \<Longrightarrow> length r < length s"
  by (cases s) (auto split: if_splits list.splits)

text \<open>The items up to the closing \<open>$\<close>, which has to be the last character.\<close>

function parse_items :: "string \<Rightarrow> rx_item list option" where
  "parse_items s =
     (if s = ''$'' then Some []
      else case parse_atom s of
        None \<Rightarrow> None
      | Some (a, r) \<Rightarrow>
          (case r of
             c # r' \<Rightarrow>
               if c = CHR ''*'' then map_option (\<lambda>is. Star a # is) (parse_items r')
               else map_option (\<lambda>is. One a # is) (parse_items r)
           | [] \<Rightarrow> None))"
  by pat_completeness auto
termination
  by (relation "measure length") (auto dest: parse_atom_shorter)

definition parse_regex :: "string \<Rightarrow> rx_item list option" where
  "parse_regex source =
     (case source of
        [] \<Rightarrow> None
      | c # cs \<Rightarrow> if c = CHR ''^'' then parse_items cs else None)"

fun atom_matches :: "rx_atom \<Rightarrow> char \<Rightarrow> bool" where
  "atom_matches (Lit c) x = (x = c)"
| "atom_matches AnyChar x = (x \<noteq> CHR 0x0A \<and> x \<noteq> CHR 0x0D)"
| "atom_matches NotSlash x = (x \<noteq> CHR ''/'')"

text \<open>The whole input against the items: \<open>test\<close> of an expression anchored at both ends.\<close>

fun rx_match :: "rx_item list \<Rightarrow> string \<Rightarrow> bool" where
  "rx_match [] s = (s = [])"
| "rx_match (One a # r) [] = False"
| "rx_match (One a # r) (x # xs) = (atom_matches a x \<and> rx_match r xs)"
| "rx_match (Star a # r) [] = rx_match r []"
| "rx_match (Star a # r) (x # xs) =
     (rx_match r (x # xs) \<or> (atom_matches a x \<and> rx_match (Star a # r) xs))"

definition RegExp_test :: "string \<Rightarrow> string \<Rightarrow> rx_error + bool" where
  "RegExp_test source input =
     (case parse_regex source of
        None \<Rightarrow> Inl OutsideFragment
      | Some items \<Rightarrow> Inr (rx_match items input))"

subsection \<open>Filtering the tree of a repository\<close>

text \<open>An entry of the tree that \<open>git.getTree\<close> lists; the provider may leave out any
  field.\<close>

record TreeItem =
  item_path :: "string option"
  item_type :: "string option"
  item_sha :: "string option"
  item_size :: "nat option"

text \<open>\<open>patterns.some((pattern) => this.matchPattern(path, pattern))\<close>: the patterns are
  tried in order up to the first that matches; an error of a test ends the scan.\<close>

fun some_pattern :: "(string \<Rightarrow> string \<Rightarrow> 'e + bool) \<Rightarrow> string \<Rightarrow> string list \<Rightarrow> 'e + bool" where
  "some_pattern rx path [] = Inr False"
| "some_pattern rx path (pattern # patterns) =
     (case matchPattern rx path pattern of
        Inl e \<Rightarrow> Inl e
      | Inr matched \<Rightarrow> if matched then Inr True else some_pattern rx path patterns)"

text \<open>The callback of \<open>tree.tree.filter\<close> in \<open>fetchFilesFromRepo\<close>. A path that is
  missing or empty is falsy.\<close>

definition isMatchingFile ::
  "(string \<Rightarrow> string \<Rightarrow> 'e + bool) \<Rightarrow> string list \<Rightarrow> string list \<Rightarrow> TreeItem \<Rightarrow> 'e + bool" where
  "isMatchingFile rx includePatterns excludePatterns item =
     (if item_type item \<noteq> Some ''blob'' then Inr False
      else case item_path item of
        None \<Rightarrow> Inr False
      | Some path \<Rightarrow>
          if path = [] then Inr False
          else case some_pattern rx path includePatterns of
            Inl e \<Rightarrow> Inl e
          | Inr includeMatch \<Rightarrow>
              if \<not> includeMatch then Inr False
              else case some_pattern rx path excludePatterns of
                Inl e \<Rightarrow> Inl e
              | Inr excludeMatch \<Rightarrow> if excludeMatch then Inr False else Inr True)"

text \<open>\<open>tree.tree.filter(callback)\<close>: the entries kept, or the first error of the
  callback.\<close>

fun matchingFiles ::
  "(string \<Rightarrow> string \<Rightarrow> 'e + bool) \<Rightarrow> string list \<Rightarrow> string list \<Rightarrow> TreeItem list \<Rightarrow> 'e + TreeItem list" where
  "matchingFiles rx includePatterns excludePatterns [] = Inr []"
| "matchingFiles rx includePatterns excludePatterns (item # items) =
     (case isMatchingFile rx includePatterns excludePatterns item of
        Inl e \<Rightarrow> Inl e
      | Inr keep \<Rightarrow>
          (case matchingFiles rx includePatterns excludePatterns items of
             Inl e \<Rightarrow> Inl e
           | Inr rest \<Rightarrow> Inr (if keep then item # rest else rest)))"

section \<open>The storage of the blocklist\<close>

text \<open>
  JavaScript values as far as the blocklist needs them: \<open>undefined\<close>, \<open>null\<close>,
  booleans, strings, arrays and objects. An object is the list of its properties in
  the order of their creation; its keys are distinct.
\<close>

datatype jsval = JUndefined | JNull | JBool bool | JStr string | JArr "jsval list"
  | JObj "(string \<times> jsval) list"

type_synonym js_object = "(string \<times> jsval) list"

definition obj_get :: "js_object \<Rightarrow> string \<Rightarrow> jsval" where
  "obj_get obj k = (case map_of obj k of None \<Rightarrow> JUndefined | Some v \<Rightarrow> v)"

definition Object_keys :: "js_object \<Rightarrow> string list" where
  "Object_keys obj = map fst obj"

text \<open>\<open>QuoteJSONString\<close> of ECMAScript, on ASCII strings.\<close>

definition hex_digit :: "nat \<Rightarrow> char" where
  "hex_digit n = ''0123456789abcdef'' ! (n mod 16)"

definition quote_char :: "char \<Rightarrow> string" where
  "quote_char c =
     (if c = CHR 0x22 then [CHR 0x5C, CHR 0x22]
      else if c = CHR 0x5C then [CHR 0x5C, CHR 0x5C]
      else if c = CHR 0x08 then [CHR 0x5C, CHR ''b'']
      else if c = CHR 0x09 then [CHR 0x5C, CHR ''t'']
      else if c = CHR 0x0A then [CHR 0x5C, CHR ''n'']
      else if c = CHR 0x0C then [CHR 0x5C, CHR ''f'']
      else if c = CHR 0x0D then [CHR 0x5C, CHR ''r'']
      else if (of_char c :: nat) < 32
        then [CHR 0x5C, CHR ''u'', CHR ''0'', CHR ''0'',
              hex_digit ((of_char c :: nat) div 16), hex_digit (of_char c :: nat)]
      else [c])"

definition QuoteJSONString :: "string \<Rightarrow> string" where
  "QuoteJSONString s = [CHR 0x22] @ concat (map quote_char s) @ [CHR 0x22]"

fun join :: "string \<Rightarrow> string list \<Rightarrow> string" where
  "join sep [] = []"
| "join sep [x] = x"
| "join sep (x # y # ys) = x @ sep @ join sep (y # ys)"

text \<open>The keys of a replacer array, each at its first occurrence.\<close>

definition property_list :: "string list \<Rightarrow> string list" where
  "property_list keys = rev (remdups (rev keys))"

lemma map_of_size_jsval:
  "map_of kvs k = Some v \<Longrightarrow> size v < Suc (size_list (size_prod (\<lambda>_. 0) size) kvs)"
  by (induction kvs) (auto split: if_splits)

text \<open>
  \<open>JSON.stringify(value, keys)\<close> with an array of keys as the replacer and no
  indentation: of every object, the properties named in \<open>keys\<close> are written in the
  order of \<open>keys\<close>, and a property whose value is \<open>undefined\<close> is left out. The result
  is \<open>None\<close> where \<open>JSON.stringify\<close> gives \<open>undefined\<close>.
\<close>

function JSON_stringify :: "jsval \<Rightarrow> string list \<Rightarrow> string option" where
  "JSON_stringify JUndefined keys = None"
| "JSON_stringify JNull keys = Some ''null''"
| "JSON_stringify (JBool b) keys = Some (if b then ''true'' else ''false'')"
| "JSON_stringify (JStr s) keys = Some (QuoteJSONString s)"
| "JSON_stringify (JArr xs) keys =
     Some (''['' @ join '','' (map (\<lambda>x. case JSON_stringify x keys of None \<Rightarrow> ''null'' | Some s \<Rightarrow> s) xs) @ '']'')"
| "JSON_stringify (JObj obj) keys =
     Some (''{'' @ join '',''
        (List.map_filter
           (\<lambda>k. case map_of obj k of
                  None \<Rightarrow> None
                | Some v \<Rightarrow> map_option (\<lambda>s. QuoteJSONString k @ '':'' @ s) (JSON_stringify v keys))
           (property_list keys)) @ ''}'')"
  by pat_completeness auto
termination
proof (relation "measure (\<lambda>(v, keys). size v)", goal_cases)
  case 1
  then show ?case by simp
next
  case (2 xs keys x)
  then show ?case by (simp add: less_Suc_eq_le size_list_estimation')
next
  case (3 obj keys k v)
  then show ?case using map_of_size_jsval[of obj k v] by simp
qed

text \<open>
  \<open>calculateHash\<close>: the keys of the object, sorted as \<open>Array.prototype.sort\<close> sorts
  strings without a comparator, are the replacer of \<open>JSON.stringify\<close>. The digest
  \<open>crypto.createHash('sha256').update(canonical).digest('hex')\<close> is the runtime's and
  is the parameter \<open>sha256_hex\<close>.
\<close>

definition canonical_json :: "js_object \<Rightarrow> string" where
  "canonical_json data_obj =
     (case JSON_stringify (JObj data_obj) (sort (Object_keys data_obj)) of
        None \<Rightarrow> []
      | Some s \<Rightarrow> s)"

definition calculateHash :: "(string \<Rightarrow> string) \<Rightarrow> js_object \<Rightarrow> string" where
  "calculateHash sha256_hex data_obj = ''sha256:'' @ sha256_hex (canonical_json data_obj)"

subsection \<open>The schemas of the blocklist\<close>

datatype storage_error = FileError | ZodError

definition and_then :: "'e + 'a \<Rightarrow> ('a \<Rightarrow> 'e + 'b) \<Rightarrow> 'e + 'b" where
  "and_then r f = (case r of Inl e \<Rightarrow> Inl e | Inr x \<Rightarrow> f x)"

definition z_string :: "jsval \<Rightarrow> storage_error + string" where
  "z_string v = (case v of JStr s \<Rightarrow> Inr s | _ \<Rightarrow> Inl ZodError)"

text \<open>\<open>z.string().datetime()\<close>; the test for an ISO 8601 timestamp is the parameter
  \<open>is_datetime\<close>.\<close>

definition z_datetime :: "(string \<Rightarrow> bool) \<Rightarrow> jsval \<Rightarrow> storage_error + string" where
  "z_datetime is_datetime v =
     (case v of JStr s \<Rightarrow> if is_datetime s then Inr s else Inl ZodError | _ \<Rightarrow> Inl ZodError)"

definition z_enum :: "string list \<Rightarrow> jsval \<Rightarrow> storage_error + string" where
  "z_enum options v =
     (case v of JStr s \<Rightarrow> if s \<in> set options then Inr s else Inl ZodError | _ \<Rightarrow> Inl ZodError)"

definition z_optional_string :: "jsval \<Rightarrow> storage_error + string option" where
  "z_optional_string v =
     (case v of JUndefined \<Rightarrow> Inr None | JStr s \<Rightarrow> Inr (Some s) | _ \<Rightarrow> Inl ZodError)"

definition z_boolean_default :: "bool \<Rightarrow> jsval \<Rightarrow> storage_error + bool" where
  "z_boolean_default d v =
     (case v of JUndefined \<Rightarrow> Inr d | JBool b \<Rightarrow> Inr b | _ \<Rightarrow> Inl ZodError)"

definition z_string_default :: "string \<Rightarrow> jsval \<Rightarrow> storage_error + string" where
  "z_string_default d v = (case v of JUndefined \<Rightarrow> Inr d | _ \<Rightarrow> z_string v)"

definition z_enum_default :: "string list \<Rightarrow> string \<Rightarrow> jsval \<Rightarrow> storage_error + string" where
  "z_enum_default options d v = (case v of JUndefined \<Rightarrow> Inr d | _ \<Rightarrow> z_enum options v)"

definition optional_property :: "string \<Rightarrow> string option \<Rightarrow> js_object" where
  "optional_property k v = (case v of None \<Rightarrow> [] | Some s \<Rightarrow> [(k, JStr s)])"

text \<open>
  \<open>BlocklistEntrySchema.parse\<close>: the value is an object, every field passes its
  schema, the defaults are filled in; the result holds the fields of the schema in the
  order of the schema and nothing else. The field \<open>hash\<close> is any string.
\<close>

definition BlocklistEntrySchema_parse :: "(string \<Rightarrow> bool) \<Rightarrow> jsval \<Rightarrow> storage_error + js_object" where
  "BlocklistEntrySchema_parse is_datetime v =
     (case v of
        JObj obj \<Rightarrow>
          and_then (z_datetime is_datetime (obj_get obj ''timestamp'')) (\<lambda>timestamp.
          and_then (z_enum [''server'', ''file_pattern''] (obj_get obj ''type'')) (\<lambda>ty.
          and_then (z_optional_string (obj_get obj ''serverName'')) (\<lambda>serverName.
          and_then (z_optional_string (obj_get obj ''version'')) (\<lambda>version.
          and_then (z_optional_string (obj_get obj ''pattern'')) (\<lambda>pattern.
          and_then (z_string (obj_get obj ''reason'')) (\<lambda>reason.
          and_then (z_string (obj_get obj ''hash'')) (\<lambda>hash.
          and_then (z_boolean_default False (obj_get obj ''allowOverride'')) (\<lambda>allowOverride.
          and_then (z_enum_default [''user'', ''system'', ''community''] ''user'' (obj_get obj ''source''))
            (\<lambda>source.
              Inr ([(''timestamp'', JStr timestamp), (''type'', JStr ty)]
                   @ optional_property ''serverName'' serverName
                   @ optional_property ''version'' version
                   @ optional_property ''pattern'' pattern
                   @ [(''reason'', JStr reason), (''hash'', JStr hash),
                      (''allowOverride'', JBool allowOverride), (''source'', JStr source)]))))))))))
      | _ \<Rightarrow> Inl ZodError)"

record Blocklist =
  bl_version :: string
  lastUpdated :: string
  entries :: "js_object list"

text \<open>\<open>z.array(BlocklistEntrySchema)\<close> on the elements of an array.\<close>

fun parse_entries :: "(string \<Rightarrow> bool) \<Rightarrow> jsval list \<Rightarrow> storage_error + js_object list" where
  "parse_entries is_datetime [] = Inr []"
| "parse_entries is_datetime (v # vs) =
     and_then (BlocklistEntrySchema_parse is_datetime v) (\<lambda>e.
     and_then (parse_entries is_datetime vs) (\<lambda>es. Inr (e # es)))"

definition BlocklistSchema_parse :: "(string \<Rightarrow> bool) \<Rightarrow> jsval \<Rightarrow> storage_error + Blocklist" where
  "BlocklistSchema_parse is_datetime v =
     (case v of
        JObj obj \<Rightarrow>
          and_then (z_string_default ''1.0.0'' (obj_get obj ''version'')) (\<lambda>version.
          and_then (z_datetime is_datetime (obj_get obj ''lastUpdated'')) (\<lambda>lastUpdated.
          and_then (case obj_get obj ''entries'' of
                      JArr vs \<Rightarrow> parse_entries is_datetime vs
                    | _ \<Rightarrow> Inl ZodError) (\<lambda>entries.
            Inr \<lparr>bl_version = version, lastUpdated = lastUpdated, entries = entries\<rparr>)))
      | _ \<Rightarrow> Inl ZodError)"

subsection \<open>Loading, saving and appending\<close>

text \<open>What the process writes with \<open>console.error\<close>.\<close>

datatype message =
    Indexed nat nat
  | FetchingFiles string string
  | FoundMatchingFiles nat
  | ErrorFetchingFile string
  | ErrorFetchingRepo string string
  | ErrorDiscoveringUserRepos
  | GitHubSyncNotAvailable
  | AutoDiscovering
  | FoundUserRepositories nat
  | FetchingOfficial
  | FetchingCommunity
  | SyncComplete

text \<open>
  The state that the storage works on: the file \<open>data/blocklist.json\<close>, as the JSON
  value that its text is (\<open>None\<close> when the file cannot be read or is not JSON), and
  the console. Writing a file is taken to succeed.
\<close>

record storage =
  blocklist_file :: "jsval option"
  console :: "message list"

definition loadBlocklist :: "(string \<Rightarrow> bool) \<Rightarrow> storage \<Rightarrow> (storage_error + Blocklist) \<times> storage" where
  "loadBlocklist is_datetime st =
     (case blocklist_file st of
        None \<Rightarrow> (Inl FileError, st)
      | Some json \<Rightarrow> (BlocklistSchema_parse is_datetime json, st))"

text \<open>The JSON value of the text that \<open>JSON.stringify(blocklist, null, 2)\<close> writes: a
  property of an entry whose value is \<open>undefined\<close> is not written.\<close>

definition blocklist_json :: "Blocklist \<Rightarrow> jsval" where
  "blocklist_json blocklist =
     JObj [(''version'', JStr (bl_version blocklist)),
           (''lastUpdated'', JStr (lastUpdated blocklist)),
           (''entries'', JArr (map (\<lambda>e. JObj (filter (\<lambda>(k, v). v \<noteq> JUndefined) e)) (entries blocklist)))]"

definition saveBlocklist :: "storage \<Rightarrow> Blocklist \<Rightarrow> storage" where
  "saveBlocklist st blocklist = st\<lparr>blocklist_file := Some (blocklist_json blocklist)\<rparr>"

text \<open>
  \<open>addBlocklistEntry\<close>; \<open>now\<close> is the time that \<open>new Date().toISOString()\<close> gives
  for \<open>lastUpdated\<close>. The entry pushed is \<open>{ ...entry, hash }\<close>.
\<close>

definition fullEntry :: "(string \<Rightarrow> string) \<Rightarrow> js_object \<Rightarrow> js_object" where
  "fullEntry sha256_hex entry = map_set entry ''hash'' (JStr (calculateHash sha256_hex entry))"

definition addBlocklistEntry ::
  "(string \<Rightarrow> bool) \<Rightarrow> (string \<Rightarrow> string) \<Rightarrow> string \<Rightarrow> storage \<Rightarrow> js_object \<Rightarrow> storage_error + storage" where
  "addBlocklistEntry is_datetime sha256_hex now st entry =
     (case loadBlocklist is_datetime st of
        (Inl e, st') \<Rightarrow> Inl e
      | (Inr blocklist, st') \<Rightarrow>
          Inr (saveBlocklist st'
                (blocklist\<lparr>entries := entries blocklist @ [fullEntry sha256_hex entry],
                            lastUpdated := now\<rparr>)))"

text \<open>The entry that the tool \<open>add_blocklist_entry\<close> of the server passes.\<close>

definition tool_entry :: "string \<Rightarrow> string \<Rightarrow> jsval \<Rightarrow> jsval \<Rightarrow> string \<Rightarrow> js_object" where
  "tool_entry now ty serverName pattern reason =
     [(''timestamp'', JStr now), (''type'', JStr ty), (''serverName'', serverName),
      (''pattern'', pattern), (''reason'', JStr reason), (''allowOverride'', JBool False),
      (''source'', JStr ''user'')]"

text \<open>An entry with its field \<open>hash\<close> set to a given string, as an edit of the file
  outside the program leaves it.\<close>

definition with_hash :: "js_object \<Rightarrow> string \<Rightarrow> js_object" where
  "with_hash entry h = map_set entry ''hash'' (JStr h)"

text \<open>The JSON value of a blocklist file whose entries carry the given hashes.\<close>

definition stored_blocklist :: "jsval \<Rightarrow> jsval \<Rightarrow> (js_object \<times> string) list \<Rightarrow> jsval" where
  "stored_blocklist version updated es =
     JObj [(''version'', version), (''lastUpdated'', updated),
           (''entries'', JArr (map (\<lambda>(e, h). JObj (with_hash e h)) es))]"

text \<open>Stand-ins for the two parameters in the examples: a timestamp test that looks at
  the length and at the letters \<open>T\<close> and \<open>Z\<close>, and the identity in the place of the
  digest.\<close>

definition example_is_datetime :: "string \<Rightarrow> bool" where
  "example_is_datetime s = (length s = 24 \<and> s ! 10 = CHR ''T'' \<and> s ! 23 = CHR ''Z'')"

definition example_digest :: "string \<Rightarrow> string" where
  "example_digest s = s"

definition example_entry :: js_object where
  "example_entry = tool_entry ''2025-01-01T00:00:00.000Z'' ''server'' (JStr ''x'') JUndefined ''bad''"

text \<open>The entry that \<open>BlocklistEntrySchema.parse\<close> gives, from its fields.\<close>

definition entry_shape ::
  "string \<Rightarrow> string \<Rightarrow> string option \<Rightarrow> string option \<Rightarrow> string option \<Rightarrow> string \<Rightarrow> string \<Rightarrow> bool \<Rightarrow> string \<Rightarrow> js_object" where
  "entry_shape timestamp ty serverName version pattern reason h allowOverride source =
     [(''timestamp'', JStr timestamp), (''type'', JStr ty)]
       @ optional_property ''serverName'' serverName
       @ optional_property ''version'' version
       @ optional_property ''pattern'' pattern
       @ [(''reason'', JStr reason), (''hash'', JStr h),
          (''allowOverride'', JBool allowOverride), (''source'', JStr source)]"

text \<open>A state whose blocklist file holds the example entry with a given hash, and an
  empty console.\<close>

definition example_storage :: "string \<Rightarrow> storage" where
  "example_storage h =
     \<lparr>blocklist_file =
        Some (stored_blocklist (JStr ''1.0.0'') (JStr ''2025-01-02T00:00:00.000Z'')
                [(filter (\<lambda>(k, v). v \<noteq> JUndefined) example_entry, h)]),
      console = []\<rparr>"

definition empty_storage :: storage where
  "empty_storage =
     \<lparr>blocklist_file = Some (stored_blocklist (JStr ''1.0.0'') (JStr ''2025-01-02T00:00:00.000Z'') []),
      console = []\<rparr>"

section \<open>The synchronisation with GitHub\<close>

text \<open>
  What the synchronisation asks of the world outside: the GitHub API behind \<open>octokit\<close>,
  the local cache directory, \<open>path.extname\<close> and the clock. Every request can fail; a
  request gets the same answer whenever it is made during a pass. The answers are the
  parameters of the model:
  \<^item> \<open>getAuthenticated\<close> gives the login of the user;
  \<^item> \<open>listForUser login\<close> gives the repositories of the user, as owner and name;
  \<^item> \<open>getContent owner repo\<close> tells whether the request for \<open>.claude\<close> succeeds;
  \<^item> \<open>getTree owner repo branch\<close> gives the entries of the tree;
  \<^item> \<open>getBlob owner repo sha\<close> gives the decoded content of a blob;
  \<^item> \<open>ensureRepoDir owner repo\<close> tells whether the cache directory can be made;
  \<^item> \<open>writeCache owner repo path content\<close> tells whether the cache file can be written.
\<close>

datatype provider_error = ProviderError

record environment =
  getAuthenticated :: "provider_error + string"
  listForUser :: "string \<Rightarrow> provider_error + (string \<times> string) list"
  getContent :: "string \<Rightarrow> string \<Rightarrow> bool"
  getTree :: "string \<Rightarrow> string \<Rightarrow> string \<Rightarrow> provider_error + TreeItem list"
  getBlob :: "string \<Rightarrow> string \<Rightarrow> string \<Rightarrow> provider_error + string"
  ensureRepoDir :: "string \<Rightarrow> string \<Rightarrow> bool"
  writeCache :: "string \<Rightarrow> string \<Rightarrow> string \<Rightarrow> string \<Rightarrow> bool"
  extname :: "string \<Rightarrow> string"
  env_now :: string

text \<open>\<open>discoverUserRepos()\<close>: the repositories of the authenticated user that have a
  \<open>.claude\<close> directory; any failure gives the empty list and a message.\<close>

definition discoverUserRepos :: "environment \<Rightarrow> (string \<times> string) list \<times> message list" where
  "discoverUserRepos env =
     (case getAuthenticated env of
        Inl e \<Rightarrow> ([], [ErrorDiscoveringUserRepos])
      | Inr login \<Rightarrow>
          (case listForUser env login of
             Inl e \<Rightarrow> ([], [ErrorDiscoveringUserRepos])
           | Inr repos \<Rightarrow> (filter (\<lambda>(owner, repo). getContent env owner repo) repos, [])))"

text \<open>The document that \<open>fetchFilesFromRepo\<close> builds for a file.\<close>

definition make_document ::
  "environment \<Rightarrow> string \<Rightarrow> string \<Rightarrow> string \<Rightarrow> string \<Rightarrow> string \<Rightarrow> nat option \<Rightarrow> string \<Rightarrow> IndexedDocument" where
  "make_document env owner repo br path sha sz text =
     \<lparr>doc_id = owner @ ''/'' @ repo @ ''/'' @ br @ ''/'' @ path,
      repoOwner = owner, repoName = repo, branch = br, filePath = path, content = text,
      metadata =
        \<lparr>fileType = (let ext = drop 1 (extname env path) in if ext = [] then ''unknown'' else ext),
         lastModified = env_now env,
         size_bytes = (case sz of None \<Rightarrow> 0 | Some n \<Rightarrow> n),
         hash_sha = sha\<rparr>,
      indexed = env_now env\<rparr>"

text \<open>
  One round of the loop over the matching files: the documents and the messages so
  far, and a file. A file without a path or a hash is passed over. A blob that cannot
  be fetched gives a message and no document. The document is pushed before the cache
  file is written, so a cache file that cannot be written gives a message and the
  document stays.
\<close>

definition fetch_file ::
  "environment \<Rightarrow> string \<Rightarrow> string \<Rightarrow> string \<Rightarrow> TreeItem \<Rightarrow>
   IndexedDocument list \<times> message list \<Rightarrow> IndexedDocument list \<times> message list" where
  "fetch_file env owner repo br file acc =
     (case acc of (docs, msgs) \<Rightarrow>
       (case item_path file of
          None \<Rightarrow> (docs, msgs)
        | Some path \<Rightarrow>
            (case item_sha file of
               None \<Rightarrow> (docs, msgs)
             | Some sha \<Rightarrow>
                 if path = [] \<or> sha = [] then (docs, msgs)
                 else (case getBlob env owner repo sha of
                         Inl e \<Rightarrow> (docs, msgs @ [ErrorFetchingFile path])
                       | Inr text \<Rightarrow>
                           (docs @ [make_document env owner repo br path sha (item_size file) text],
                            if writeCache env owner repo path text then msgs
                            else msgs @ [ErrorFetchingFile path])))))"

text \<open>
  \<open>fetchFilesFromRepo\<close>: the documents of a repository and the messages written. A
  failure before the loop (the cache directory, the tree, a pattern that the regular
  expression engine rejects) is caught by the outer handler, which returns the empty list.
\<close>

definition fetchFilesFromRepo ::
  "environment \<Rightarrow> (string \<Rightarrow> string \<Rightarrow> 'e + bool) \<Rightarrow> string \<Rightarrow> string \<Rightarrow> string \<Rightarrow> string list \<Rightarrow> string list \<Rightarrow>
   IndexedDocument list \<times> message list" where
  "fetchFilesFromRepo env rx owner repo br includePatterns excludePatterns =
     (if \<not> ensureRepoDir env owner repo
      then ([], [FetchingFiles owner repo, ErrorFetchingRepo owner repo])
      else case getTree env owner repo br of
        Inl e \<Rightarrow> ([], [FetchingFiles owner repo, ErrorFetchingRepo owner repo])
      | Inr tree \<Rightarrow>
          (case matchingFiles rx includePatterns excludePatterns tree of
             Inl e \<Rightarrow> ([], [FetchingFiles owner repo, ErrorFetchingRepo owner repo])
           | Inr files \<Rightarrow>
               fold (fetch_file env owner repo br) files
                 ([], [FetchingFiles owner repo, FoundMatchingFiles (length files)])))"

subsection \<open>A pass of the synchronisation\<close>

record RepoConfig =
  rc_owner :: string
  rc_repo :: string
  rc_branch :: string
  rc_includePatterns :: "string list"
  rc_excludePatterns :: "string list"
  rc_indexingEnabled :: bool
  rc_type :: string

record SyncConfig =
  sync_enabled :: bool
  intervalMinutes :: nat
  autoDiscoverUserRepos :: bool
  includeOfficialMCPRepos :: bool
  includeCommunityRepos :: bool

text \<open>The configuration, as far as a pass reads it.\<close>

record KnowledgeBaseConfig =
  repositories :: "RepoConfig list"
  sync :: SyncConfig

text \<open>The state of the server that a pass works on: the index and the console.\<close>

record server =
  srv_documents :: SearchEngine
  srv_console :: "message list"

definition getOfficialMCPRepos :: "(string \<times> string) list" where
  "getOfficialMCPRepos =
     [(''modelcontextprotocol'', ''servers''), (''modelcontextprotocol'', ''typescript-sdk''),
      (''modelcontextprotocol'', ''specification'')]"

definition getCommunityMCPRepos :: "(string \<times> string) list" where
  "getCommunityMCPRepos = [(''punkpeye'', ''awesome-mcp-servers''), (''wong2'', ''awesome-mcp-servers'')]"

text \<open>A repository to fetch: owner, name, branch, include patterns, exclude patterns.\<close>

type_synonym repo_source = "string \<times> string \<times> string \<times> string list \<times> string list"

text \<open>One round of the loops of \<open>syncKnowledgeBase\<close>: fetch the files of a repository and
  add the documents to the index. \<open>addDocuments\<close> writes a message of its own.\<close>

definition sync_repo ::
  "environment \<Rightarrow> (string \<Rightarrow> string \<Rightarrow> 'e + bool) \<Rightarrow> repo_source \<Rightarrow> server \<Rightarrow> server" where
  "sync_repo env rx source srv =
     (case source of (owner, repo, br, includePatterns, excludePatterns) \<Rightarrow>
       (case fetchFilesFromRepo env rx owner repo br includePatterns excludePatterns of
          (docs, msgs) \<Rightarrow>
            \<lparr>srv_documents = addDocuments (srv_documents srv) docs,
             srv_console = srv_console srv @ msgs
               @ [Indexed (length docs) (length (addDocuments (srv_documents srv) docs))]\<rparr>))"

text \<open>The repositories of the four loops, in the order of the source, with the branch
  and patterns that each loop passes; the exclude patterns of the first three are the
  default of \<open>fetchFilesFromRepo\<close>.\<close>

definition user_sources :: "(string \<times> string) list \<Rightarrow> repo_source list" where
  "user_sources repos =
     map (\<lambda>(owner, repo). (owner, repo, ''main'', [''.claude/**/*.md'', ''**/*.mcp.json''],
                            [''**/node_modules/**''])) repos"

definition official_sources :: "repo_source list" where
  "official_sources =
     map (\<lambda>(owner, repo). (owner, repo, ''main'', [''**/*.md'', ''**/package.json''],
                            [''**/node_modules/**''])) getOfficialMCPRepos"

definition community_sources :: "repo_source list" where
  "community_sources =
     map (\<lambda>(owner, repo). (owner, repo, ''main'', [''**/*.md''], [''**/node_modules/**'']))
       getCommunityMCPRepos"

definition configured_sources :: "KnowledgeBaseConfig \<Rightarrow> repo_source list" where
  "configured_sources config =
     map (\<lambda>r. (rc_owner r, rc_repo r, rc_branch r, rc_includePatterns r, rc_excludePatterns r))
       (filter rc_indexingEnabled (repositories config))"

definition say :: "message list \<Rightarrow> server \<Rightarrow> server" where
  "say msgs srv = srv\<lparr>srv_console := srv_console srv @ msgs\<rparr>"

text \<open>
  \<open>syncKnowledgeBase(force)\<close>. \<open>githubSync\<close> tells whether the GitHub client is
  there; \<open>loadConfig\<close> is what \<open>storage.loadConfig()\<close> gives, the configuration or
  the error that it raises, which is the one error that leaves the function.
\<close>

definition syncKnowledgeBase ::
  "environment \<Rightarrow> (string \<Rightarrow> string \<Rightarrow> 'e + bool) \<Rightarrow> bool \<Rightarrow> storage_error + KnowledgeBaseConfig \<Rightarrow> bool \<Rightarrow>
   server \<Rightarrow> storage_error + server" where
  "syncKnowledgeBase env rx githubSync loadConfig force srv =
     (if \<not> githubSync then Inr (say [GitHubSyncNotAvailable] srv)
      else case loadConfig of
        Inl e \<Rightarrow> Inl e
      | Inr config \<Rightarrow>
          (let srv1 = (if force then srv\<lparr>srv_documents := []\<rparr> else srv);
               srv2 =
                 (if autoDiscoverUserRepos (sync config) then
                    (case discoverUserRepos env of
                       (userRepos, msgs) \<Rightarrow>
                         fold (sync_repo env rx) (user_sources userRepos)
                           (say ([AutoDiscovering] @ msgs @ [FoundUserRepositories (length userRepos)]) srv1))
                  else srv1);
               srv3 =
                 (if includeOfficialMCPRepos (sync config)
                  then fold (sync_repo env rx) official_sources (say [FetchingOfficial] srv2)
                  else srv2);
               srv4 =
                 (if includeCommunityRepos (sync config)
                  then fold (sync_repo env rx) community_sources (say [FetchingCommunity] srv3)
                  else srv3);
               srv5 = fold (sync_repo env rx) (configured_sources config) srv4
           in Inr (say [SyncComplete] srv5)))"

text \<open>The repositories that a pass fetches, in order.\<close>

definition pass_sources :: "environment \<Rightarrow> KnowledgeBaseConfig \<Rightarrow> repo_source list" where
  "pass_sources env config =
     (if autoDiscoverUserRepos (sync config) then user_sources (fst (discoverUserRepos env)) else [])
     @ (if includeOfficialMCPRepos (sync config) then official_sources else [])
     @ (if includeCommunityRepos (sync config) then community_sources else [])
     @ configured_sources config"

text \<open>The documents of a repository of a pass.\<close>

definition batch :: "environment \<Rightarrow> (string \<Rightarrow> string \<Rightarrow> 'e + bool) \<Rightarrow> repo_source \<Rightarrow> IndexedDocument list" where
  "batch env rx source =
     (case source of (owner, repo, br, includePatterns, excludePatterns) \<Rightarrow>
        fst (fetchFilesFromRepo env rx owner repo br includePatterns excludePatterns))"

text \<open>The document of a matching file, when its blob can be fetched.\<close>

definition file_document ::
  "environment \<Rightarrow> string \<Rightarrow> string \<Rightarrow> string \<Rightarrow> TreeItem \<Rightarrow> IndexedDocument option" where
  "file_document env owner repo br file =
     (case (item_path file, item_sha file) of
        (Some path, Some sha) \<Rightarrow>
          if path = [] \<or> sha = [] then None
          else (case getBlob env owner repo sha of
                  Inl e \<Rightarrow> None
                | Inr text \<Rightarrow> Some (make_document env owner repo br path sha (item_size file) text))
      | _ \<Rightarrow> None)"

text \<open>
  An environment for the examples. The repository \<open>o/a\<close> has three markdown files, of
  which the blob of \<open>b.md\<close> cannot be fetched; the tree of \<open>o/b\<close> cannot be listed;
  \<open>o/c\<close> has one markdown file. The user cannot be authenticated.
\<close>

definition example_blob_item :: "string \<Rightarrow> string \<Rightarrow> TreeItem" where
  "example_blob_item path sha =
     \<lparr>item_path = Some path, item_type = Some ''blob'', item_sha = Some sha, item_size = Some 3\<rparr>"

definition example_env :: environment where
  "example_env =
     \<lparr>getAuthenticated = Inl ProviderError,
      listForUser = (\<lambda>login. Inl ProviderError),
      getContent = (\<lambda>owner repo. False),
      getTree = (\<lambda>owner repo br.
        if repo = ''a'' then Inr [example_blob_item ''a.md'' ''s1'', example_blob_item ''b.md'' ''s2'',
                                 example_blob_item ''c.md'' ''s3'']
        else if repo = ''c'' then Inr [example_blob_item ''x.md'' ''s4'']
        else Inl ProviderError),
      getBlob = (\<lambda>owner repo sha. if sha = ''s2'' then Inl ProviderError else Inr ''foo''),
      ensureRepoDir = (\<lambda>owner repo. True),
      writeCache = (\<lambda>owner repo path text. True),
      extname = (\<lambda>path. ''.md''),
      env_now = ''2025-01-01T00:00:00.000Z''\<rparr>"

definition example_repo :: "string \<Rightarrow> RepoConfig" where
  "example_repo name =
     \<lparr>rc_owner = ''o'', rc_repo = name, rc_branch = ''main'', rc_includePatterns = [''*.md''],
      rc_excludePatterns = [], rc_indexingEnabled = True, rc_type = ''user''\<rparr>"

definition example_config :: KnowledgeBaseConfig where
  "example_config =
     \<lparr>repositories = [example_repo ''a'', example_repo ''b'', example_repo ''c''],
      sync = \<lparr>sync_enabled = True, intervalMinutes = 30, autoDiscoverUserRepos = True,
               includeOfficialMCPRepos = False, includeCommunityRepos = False\<rparr>\<rparr>"

text \<open>An index of four documents, for the examples.\<close>

definition example_index :: SearchEngine where
  "example_index =
     addDocuments []
       [example_doc ''a'' ''foo'', example_doc ''b'' ''Foo foo FOO'', example_doc ''c'' ''bar'',
        example_doc ''d'' ''xfoo'']"

section \<open>Facts about the string functions\<close>


lemma set_slice: "set (slice xs a b) \<subseteq> set xs"
  unfolding slice_def Let_def
  by (meson dual_order.trans set_drop_subset set_take_subset)

lemma slice_from_0:
  "slice xs 0 n = take (if n < 0 then nat (int (length xs) + n) else nat n) xs"
  by (auto simp: slice_def Let_def min_def max_def)

lemma insert_sorted_score:
  "insert_sorted (\<lambda>a b. score b - score a) x ys = insort_key (\<lambda>r. - score r) x ys"
  by (induction ys) auto

lemma sort_cmp_score:
  "sort_cmp (\<lambda>a b. score b - score a) xs = sort_key (\<lambda>r. - score r) xs"
  by (induction xs) (auto simp: sort_cmp_def insert_sorted_score)

lemma in_search_results:
  "r \<in> set (search_results documents query) \<longleftrightarrow>
     (\<exists>doc \<in> set (map_values documents). search_doc (toLowerCase query) doc = Some r)"
  by (auto simp: search_results_def List.map_filter_def image_iff)

lemma in_search:
  "r \<in> set (search documents query maxResults) \<Longrightarrow> r \<in> set (search_results documents query)"
  using set_slice[of "sort_cmp (\<lambda>a b. score b - score a) (search_results documents query)" 0 maxResults]
  by (auto simp: search_def sort_cmp_score)

lemma includes_str_iff: "includes_str s q \<longleftrightarrow> (\<exists>i \<le> length s. prefix q (drop i s))"
proof (induction s)
  case Nil
  then show ?case by auto
next
  case (Cons c cs)
  show ?case
  proof
    assume "includes_str (c # cs) q"
    then consider "prefix q (c # cs)" | "includes_str cs q" by auto
    then show "\<exists>i \<le> length (c # cs). prefix q (drop i (c # cs))"
    proof cases
      case 1
      then show ?thesis by (intro exI[of _ 0]) simp
    next
      case 2
      then obtain i where "i \<le> length cs" "prefix q (drop i cs)" using Cons.IH by auto
      then show ?thesis by (intro exI[of _ "Suc i"]) simp
    qed
  next
    assume "\<exists>i \<le> length (c # cs). prefix q (drop i (c # cs))"
    then obtain i where i: "i \<le> length (c # cs)" "prefix q (drop i (c # cs))" by auto
    show "includes_str (c # cs) q"
    proof (cases i)
      case 0
      then show ?thesis using i by simp
    next
      case (Suc j)
      then show ?thesis using i Cons.IH by auto
    qed
  qed
qed


lemma indexOf_absent: "\<not> includes_str s q \<Longrightarrow> indexOf s q = - 1"
  by (induction s) (auto simp: Let_def)

lemma includes_str_empty: "includes_str s []"
  by (induction s) auto

lemma indexOf_empty: "indexOf s [] = 0"
  by (cases s) auto

lemma toLowerCase_Nil_iff: "toLowerCase q = [] \<longleftrightarrow> q = []"
  by (simp add: toLowerCase_def)

lemma length_split_scan: "length (split_scan sep piece s) = Suc (occurrenceCount s sep)"
  by (induction sep piece s rule: split_scan.induct) auto

lemma length_split_str:
  "sep \<noteq> [] \<Longrightarrow> length (split_str s sep) = Suc (occurrenceCount s sep)"
  by (simp add: split_str_def length_split_scan)

lemma search_doc_Some:
  "search_doc ql doc = Some r \<Longrightarrow>
     includes_str (toLowerCase (content doc)) ql \<and> document r = doc \<and>
     score r = min (of_int (int (length (split_str (toLowerCase (content doc)) ql)) - 1) / 10) 1 \<and>
     snippet r = ''...'' @ slice (content doc) (max 0 (indexOf (toLowerCase (content doc)) ql - 100))
        (min (int (length (content doc))) (indexOf (toLowerCase (content doc)) ql + 200)) @ ''...''"
  by (auto simp: search_doc_def Let_def split: if_splits)

lemma search_doc_None:
  "search_doc ql doc = None \<longleftrightarrow> \<not> includes_str (toLowerCase (content doc)) ql"
  by (auto simp: search_doc_def Let_def)

lemma search_results_documents:
  "map document (search_results documents query) =
     filter (\<lambda>doc. includes_str (toLowerCase (content doc)) (toLowerCase query)) (map_values documents)"
proof -
  have "map document (List.map_filter (search_doc ql) ds) =
          filter (\<lambda>doc. includes_str (toLowerCase (content doc)) ql) ds" for ql ds
  proof (induction ds)
    case Nil
    then show ?case by simp
  next
    case (Cons d ds)
    show ?case
    proof (cases "search_doc ql d")
      case None
      moreover from None have "\<not> includes_str (toLowerCase (content d)) ql"
        by (simp add: search_doc_None)
      ultimately show ?thesis using Cons.IH by simp
    next
      case (Some r)
      from search_doc_Some[OF Some] show ?thesis using Some Cons.IH by simp
    qed
  qed
  then show ?thesis by (simp add: search_results_def)
qed

lemma search_take:
  "search documents query maxResults =
     take (if maxResults < 0 then nat (int (length (search_results documents query)) + maxResults)
           else nat maxResults)
       (sort_key (\<lambda>r. - score r) (search_results documents query))"
  by (simp add: search_def sort_cmp_score slice_from_0)

lemma sorted_desc_sort:
  "sorted_wrt (\<lambda>a b. score b \<le> score a) (sort_key (\<lambda>r. - score r) xs)"
proof -
  have "sorted (map (\<lambda>r. - score r) (sort_key (\<lambda>r. - score r) xs))"
    by (rule sorted_sort_key)
  then show ?thesis by (simp add: sorted_map) 
qed


lemma search_results_sound:
  "r \<in> set (search_results documents query) \<Longrightarrow>
     search_doc (toLowerCase query) (document r) = Some r \<and> document r \<in> set (map_values documents)"
  using search_doc_Some by (fastforce simp: in_search_results)

lemma search_score_le_1: "r \<in> set (search documents query maxResults) \<Longrightarrow> score r \<le> 1"
  using search_doc_Some[of "toLowerCase query" "document r" r] search_results_sound[of r documents query]
  by (auto dest!: in_search)

lemma search_score_ge_0:
  assumes "r \<in> set (search documents query maxResults)" and "query \<noteq> [] \<or> content (document r) \<noteq> []"
  shows "0 \<le> score r"
proof -
  from assms(1) have sd: "search_doc (toLowerCase query) (document r) = Some r"
    using in_search search_results_sound by blast
  let ?c = "toLowerCase (content (document r))"
  have "1 \<le> length (split_str ?c (toLowerCase query))"
  proof (cases "query = []")
    case True
    with assms(2) have "content (document r) \<noteq> []" by simp
    then have "?c \<noteq> []" by (simp add: toLowerCase_def)
    then show ?thesis using True by (cases ?c) (auto simp: split_str_def toLowerCase_def)
  next
    case False
    then show ?thesis by (simp add: length_split_str toLowerCase_Nil_iff)
  qed
  then show ?thesis using search_doc_Some[OF sd] by simp
qed

lemma prefix_filter_take: "prefix (filter P (take m xs)) (filter P xs)"
proof -
  have "filter P xs = filter P (take m xs) @ filter P (drop m xs)"
    by (metis append_take_drop_id filter_append)
  then show ?thesis by (simp add: prefix_def)
qed

lemma sort_score_stable:
  "filter (\<lambda>r. score r = k) (sort_key (\<lambda>r. - score r) xs) = filter (\<lambda>r. score r = k) xs"
  using sort_key_stable[of "\<lambda>r. - score r" "- k" xs] by simp

lemma toLowerCase_Nil: "toLowerCase [] = []"
  by (simp add: toLowerCase_def)

text \<open>The count from the left is the greatest number of occurrences of which no two
  overlap.\<close>

lemma occurrences_bounded:
  assumes "q \<noteq> []" and "non_overlapping_occurrences q s P"
  shows "P \<subseteq> {..length s}"
proof
  fix i assume "i \<in> P"
  with assms(2) have "prefix q (drop i s)" by (simp add: non_overlapping_occurrences_def)
  with assms(1) have "drop i s \<noteq> []" by auto
  then show "i \<in> {..length s}" by simp
qed

lemma occurrenceCount_upper:
  assumes "q \<noteq> []" and "non_overlapping_occurrences q s P"
  shows "card P \<le> occurrenceCount s q"
  using assms
proof (induction s q arbitrary: P rule: occurrenceCount.induct)
  case (1 q)
  then have "P = {}" by (auto simp: non_overlapping_occurrences_def)
  then show ?case by simp
next
  case (2 c cs q)
  let ?s = "c # cs"
  let ?n = "length q"
  have fin: "finite P" using occurrences_bounded[OF "2.prems"] finite_subset by blast
  have n: "0 < ?n" using "2.prems"(1) by simp
  show ?case
  proof (cases "prefix q ?s")
    case True
    let ?hi = "{i \<in> P. ?n \<le> i}"
    let ?lo = "{i \<in> P. i < ?n}"
    let ?P' = "(\<lambda>i. i - ?n) ` ?hi"
    have "non_overlapping_occurrences q (drop ?n ?s) ?P'"
      unfolding non_overlapping_occurrences_def
    proof (intro conjI ballI impI)
      fix i assume "i \<in> ?P'"
      then obtain k where k: "k \<in> P" "?n \<le> k" "i = k - ?n" by auto
      then have "drop i (drop ?n ?s) = drop k ?s" by (simp del: drop.simps drop_Suc_Cons)
      then show "prefix q (drop i (drop ?n ?s))"
        using k "2.prems"(2) by (simp add: non_overlapping_occurrences_def del: drop.simps drop_Suc_Cons)
    next
      fix i j assume "i \<in> ?P'" "j \<in> ?P'" "i < j"
      then obtain k l where "k \<in> P" "?n \<le> k" "i = k - ?n" "l \<in> P" "?n \<le> l" "j = l - ?n" by auto
      with \<open>i < j\<close> "2.prems"(2) show "i + ?n \<le> j"
        unfolding non_overlapping_occurrences_def
        by (metis add.commute add_le_imp_le_diff diff_less_mono2 le_add_diff_inverse linorder_not_less nat_diff_split nat_less_le)
    qed
    with "2.IH"(1) True "2.prems"(1) have IH: "card ?P' \<le> occurrenceCount (drop ?n ?s) q" by simp
    have "inj_on (\<lambda>i. i - ?n) ?hi" by (auto simp: inj_on_def)
    then have c1: "card ?P' = card ?hi" by (rule card_image)
    have "card ?lo \<le> 1"
    proof (rule card_le_Suc0_iff_eq[THEN iffD2, unfolded One_nat_def[symmetric]])
      show "finite ?lo" using fin by simp
      show "\<forall>a \<in> ?lo. \<forall>b \<in> ?lo. a = b"
      proof (intro ballI)
        fix a b assume ab: "a \<in> ?lo" "b \<in> ?lo"
        show "a = b"
        proof (rule ccontr)
          assume "a \<noteq> b"
          then consider "a < b" | "b < a" by linarith
          then show False
            using ab "2.prems"(2) unfolding non_overlapping_occurrences_def
            by cases fastforce+
        qed
      qed
    qed
    moreover have "P = ?lo \<union> ?hi" by auto
    then have "card P \<le> card ?lo + card ?hi" by (metis card_Un_le)
    ultimately have "card P \<le> Suc (card ?P')" using c1 by simp
    then show ?thesis using IH True "2.prems"(1) by simp
  next
    case False
    let ?P' = "(\<lambda>i. i - 1) ` P"
    have z: "0 \<notin> P" using False "2.prems"(2) by (auto simp: non_overlapping_occurrences_def)
    have "non_overlapping_occurrences q cs ?P'"
      unfolding non_overlapping_occurrences_def
    proof (intro conjI ballI impI)
      fix i assume "i \<in> ?P'"
      then obtain k where k: "k \<in> P" "i = k - 1" by auto
      with z have ki: "k = Suc i" by (cases k) auto
      from k "2.prems"(2) have "prefix q (drop k (c # cs))"
        by (simp add: non_overlapping_occurrences_def)
      then show "prefix q (drop i cs)" unfolding ki by simp
    next
      fix i j assume "i \<in> ?P'" "j \<in> ?P'" "i < j"
      then obtain k l where kl: "k \<in> P" "i = k - 1" "l \<in> P" "j = l - 1" by auto
      with z have "k = Suc i" "l = Suc j" by (metis Suc_pred' bot_nat_0.not_eq_extremum diff_Suc_1 One_nat_def)+
      with kl \<open>i < j\<close> "2.prems"(2) show "i + ?n \<le> j"
        unfolding non_overlapping_occurrences_def by fastforce
    qed
    with "2.IH"(2) False "2.prems"(1) have IH: "card ?P' \<le> occurrenceCount cs q" by simp
    have "inj_on (\<lambda>i. i - 1) P" using z by (auto simp: inj_on_def) (metis Suc_pred' bot_nat_0.not_eq_extremum One_nat_def)
    then have "card ?P' = card P" by (rule card_image)
    then show ?thesis using IH False by simp
  qed
qed

lemma occurrenceCount_attained:
  assumes "q \<noteq> []"
  shows "\<exists>P. finite P \<and> non_overlapping_occurrences q s P \<and> card P = occurrenceCount s q"
  using assms
proof (induction s q rule: occurrenceCount.induct)
  case (1 q)
  show ?case by (intro exI[of _ "{}"]) (simp add: non_overlapping_occurrences_def)
next
  case (2 c cs q)
  let ?s = "c # cs"
  let ?n = "length q"
  have n: "0 < ?n" using "2.prems" by simp
  show ?case
  proof (cases "prefix q ?s")
    case True
    with "2.IH"(1) "2.prems" obtain P' where fin: "finite P'"
      and no: "non_overlapping_occurrences q (drop ?n ?s) P'"
      and card: "card P' = occurrenceCount (drop ?n ?s) q"
      by auto
    let ?P = "insert 0 ((\<lambda>i. i + ?n) ` P')"
    have "non_overlapping_occurrences q ?s ?P"
      unfolding non_overlapping_occurrences_def
    proof (intro conjI ballI impI)
      fix i assume "i \<in> ?P"
      then consider "i = 0" | k where "k \<in> P'" "i = k + ?n" by auto
      then show "prefix q (drop i ?s)"
      proof cases
        case 1
        then show ?thesis using True by simp
      next
        case 2
        then have "drop i ?s = drop k (drop ?n ?s)" by (simp add: add.commute del: drop.simps drop_Suc_Cons)
        then show ?thesis using 2 no
          by (simp add: non_overlapping_occurrences_def del: drop.simps drop_Suc_Cons)
      qed
    next
      fix i j assume "i \<in> ?P" "j \<in> ?P" "i < j"
      then consider k where "i = 0" "k \<in> P'" "j = k + ?n"
        | k l where "k \<in> P'" "i = k + ?n" "l \<in> P'" "j = l + ?n"
        using n by auto
      then show "i + ?n \<le> j"
      proof cases
        case 1
        then show ?thesis by simp
      next
        case 2
        with \<open>i < j\<close> have "k < l" by simp
        with 2 no have "k + ?n \<le> l" by (simp add: non_overlapping_occurrences_def)
        then show ?thesis using 2 by simp
      qed
    qed
    moreover have "0 \<notin> (\<lambda>i. i + ?n) ` P'" using n by auto
    then have "card ?P = Suc (card ((\<lambda>i. i + ?n) ` P'))" using fin by simp
    then have "card ?P = Suc (card P')" by (simp add: card_image)
    ultimately show ?thesis
      using fin card True "2.prems" by (intro exI[of _ ?P]) simp
  next
    case False
    with "2.IH"(2) "2.prems" obtain P' where fin: "finite P'"
      and no: "non_overlapping_occurrences q cs P'"
      and card: "card P' = occurrenceCount cs q"
      by auto
    have "non_overlapping_occurrences q ?s (Suc ` P')"
      using no by (auto simp: non_overlapping_occurrences_def)
    moreover have "card (Suc ` P') = card P'" by (simp add: card_image)
    ultimately show ?thesis using fin card False by (intro exI[of _ "Suc ` P'"]) simp
  qed
qed

section \<open>Facts about the pattern matcher\<close>

lemmas rx_eval = matchPattern_def regexPattern_def RegExp_test_def parse_regex_def syntax_chars_def

lemma some_pattern_total:
  "\<forall>p \<in> set patterns. \<exists>b. matchPattern rx path p = Inr b \<Longrightarrow>
     some_pattern rx path patterns = Inr (\<exists>p \<in> set patterns. matchPattern rx path p = Inr True)"
proof (induction patterns)
  case Nil
  then show ?case by simp
next
  case (Cons p ps)
  then obtain b where b: "matchPattern rx path p = Inr b" by auto
  from Cons have "some_pattern rx path ps = Inr (\<exists>p \<in> set ps. matchPattern rx path p = Inr True)"
    by simp
  then show ?case using b by (cases b) auto
qed

section \<open>Facts about the storage\<close>

lemma obj_get_map_set:
  "obj_get (map_set obj k v) k' = (if k' = k then v else obj_get obj k')"
  by (induction obj) (auto simp: obj_get_def)

lemma map_fst_map_set: "set (map fst (map_set obj k v)) = insert k (set (map fst obj))"
proof (induction obj)
  case Nil
  then show ?case by simp
next
  case (Cons kv obj)
  obtain k' v' where kv: "kv = (k', v')" by (cases kv)
  show ?case
  proof (cases "k' = k")
    case True
    then show ?thesis using kv by auto
  next
    case False
    then have "set (map fst (map_set (kv # obj) k v)) = insert k' (set (map fst (map_set obj k v)))"
      using kv by simp
    also have "\<dots> = insert k' (insert k (set (map fst obj)))" using Cons.IH by simp
    finally show ?thesis using kv by auto
  qed
qed

lemma distinct_map_set: "distinct (map fst obj) \<Longrightarrow> distinct (map fst (map_set obj k v))"
proof (induction obj)
  case Nil
  then show ?case by simp
next
  case (Cons kv obj)
  obtain k' v' where kv: "kv = (k', v')" by (cases kv)
  show ?case
  proof (cases "k' = k")
    case True
    then show ?thesis using Cons.prems kv by (simp add: image_iff)
  next
    case False
    from Cons have d: "distinct (map fst (map_set obj k v))" by simp
    have "k' \<notin> set (map fst (map_set obj k v))"
      using Cons.prems kv False unfolding map_fst_map_set by auto
    then show ?thesis using d kv False by simp
  qed
qed

lemma obj_get_filter_defined:
  "distinct (map fst obj) \<Longrightarrow> obj_get (filter (\<lambda>(k, v). v \<noteq> JUndefined) obj) k = obj_get obj k"
proof (induction obj)
  case Nil
  then show ?case by simp
next
  case (Cons kv obj)
  obtain k' v' where kv: "kv = (k', v')" by (cases kv)
  from Cons have IH: "obj_get (filter (\<lambda>(k, v). v \<noteq> JUndefined) obj) k = obj_get obj k" by simp
  from Cons.prems kv have "k' \<notin> fst ` set obj" by simp
  then have "map_of obj k' = None" by (simp add: map_of_eq_None_iff)
  then have "obj_get obj k' = JUndefined" by (simp add: obj_get_def)
  then show ?case using IH kv by (auto simp: obj_get_def)
qed

lemma canonical_json_cong:
  assumes "distinct (Object_keys d1)" "distinct (Object_keys d2)" "set d1 = set d2"
  shows "canonical_json d1 = canonical_json d2"
proof -
  have m: "map_of d1 = map_of d2"
    using assms by (simp add: Object_keys_def map_of_inject_set)
  have "set (Object_keys d1) = set (Object_keys d2)"
    using assms(3) by (simp add: Object_keys_def)
  then have "mset (Object_keys d1) = mset (Object_keys d2)"
    using assms(1,2) by (simp add: set_eq_iff_mset_eq_distinct)
  then have "sort (Object_keys d1) = sort (Object_keys d2)"
    by (metis properties_for_sort sorted_sort mset_sort)
  then show ?thesis using m by (simp add: canonical_json_def)
qed

lemma calculateHash_prefix: "prefix ''sha256:'' (calculateHash sha256_hex d)"
  by (simp add: calculateHash_def)

lemma and_then_Inr_iff:
  "and_then r f = Inr y \<longleftrightarrow> (\<exists>x. r = Inr x \<and> f x = Inr y)"
  by (cases r) (auto simp: and_then_def)

lemma and_then_simps [simp]:
  "and_then (Inl e) f = Inl e" "and_then (Inr x) f = f x"
  by (simp_all add: and_then_def)

lemma z_string_Inr: "z_string v = Inr s \<longleftrightarrow> v = JStr s"
  by (cases v) (auto simp: z_string_def)

lemma entry_parse_iff:
  "BlocklistEntrySchema_parse dt (JObj obj) = Inr e \<longleftrightarrow>
     (\<exists>timestamp ty serverName version pattern reason h allowOverride source.
        z_datetime dt (obj_get obj ''timestamp'') = Inr timestamp \<and>
        z_enum [''server'', ''file_pattern''] (obj_get obj ''type'') = Inr ty \<and>
        z_optional_string (obj_get obj ''serverName'') = Inr serverName \<and>
        z_optional_string (obj_get obj ''version'') = Inr version \<and>
        z_optional_string (obj_get obj ''pattern'') = Inr pattern \<and>
        z_string (obj_get obj ''reason'') = Inr reason \<and>
        obj_get obj ''hash'' = JStr h \<and>
        z_boolean_default False (obj_get obj ''allowOverride'') = Inr allowOverride \<and>
        z_enum_default [''user'', ''system'', ''community''] ''user'' (obj_get obj ''source'') = Inr source \<and>
        e = entry_shape timestamp ty serverName version pattern reason h allowOverride source)"
  unfolding BlocklistEntrySchema_parse_def jsval.case and_then_Inr_iff z_string_Inr[of "obj_get obj ''hash''"]
    entry_shape_def
  by blast

lemma map_set_append_notin:
  "k \<notin> fst ` set xs \<Longrightarrow> map_set (xs @ ys) k v = xs @ map_set ys k v"
  by (induction xs) auto

lemma hash_notin_optional:
  "k \<noteq> ''hash'' \<Longrightarrow> ''hash'' \<notin> fst ` set (optional_property k v)"
  by (cases v) (auto simp: optional_property_def)

lemma with_hash_entry_shape:
  "with_hash (entry_shape timestamp ty serverName version pattern reason h allowOverride source) h' =
     entry_shape timestamp ty serverName version pattern reason h' allowOverride source"
  unfolding with_hash_def entry_shape_def
  by (simp add: map_set_append_notin hash_notin_optional)

lemma obj_get_entry_shape_hash:
  "obj_get (entry_shape timestamp ty serverName version pattern reason h allowOverride source) ''hash'' = JStr h"
  by (cases serverName; cases version; cases pattern)
     (simp_all add: optional_property_def obj_get_def entry_shape_def)

lemma distinct_entry_shape:
  "distinct (map fst (entry_shape timestamp ty serverName version pattern reason h allowOverride source))"
  unfolding entry_shape_def
  by (cases serverName; cases version; cases pattern) (simp_all add: optional_property_def)

lemma entry_parse_hash:
  assumes "BlocklistEntrySchema_parse dt (JObj obj) = Inr e"
  shows "obj_get e ''hash'' = obj_get obj ''hash''" and "distinct (map fst e)"
  using assms unfolding entry_parse_iff
  by (auto simp: obj_get_entry_shape_hash distinct_entry_shape)

text \<open>The hash that an entry of the file carries plays no part in parsing it.\<close>

lemma entry_parse_with_hash:
  assumes "BlocklistEntrySchema_parse dt (JObj (with_hash obj h)) = Inr e"
  shows "BlocklistEntrySchema_parse dt (JObj (with_hash obj h')) = Inr (with_hash e h')"
    and "obj_get e ''hash'' = JStr h"
proof -
  have g: "obj_get (with_hash obj x) k = (if k = ''hash'' then JStr x else obj_get obj k)" for x k
    by (simp add: with_hash_def obj_get_map_set)
  from assms obtain timestamp ty serverName version pattern reason allowOverride source where
    p: "z_datetime dt (obj_get obj ''timestamp'') = Inr timestamp"
      "z_enum [''server'', ''file_pattern''] (obj_get obj ''type'') = Inr ty"
      "z_optional_string (obj_get obj ''serverName'') = Inr serverName"
      "z_optional_string (obj_get obj ''version'') = Inr version"
      "z_optional_string (obj_get obj ''pattern'') = Inr pattern"
      "z_string (obj_get obj ''reason'') = Inr reason"
      "z_boolean_default False (obj_get obj ''allowOverride'') = Inr allowOverride"
      "z_enum_default [''user'', ''system'', ''community''] ''user'' (obj_get obj ''source'') = Inr source"
    and e: "e = entry_shape timestamp ty serverName version pattern reason h allowOverride source"
    unfolding entry_parse_iff g by auto
  show "obj_get e ''hash'' = JStr h" unfolding e by (rule obj_get_entry_shape_hash)
  show "BlocklistEntrySchema_parse dt (JObj (with_hash obj h')) = Inr (with_hash e h')"
    unfolding entry_parse_iff g e with_hash_entry_shape using p by auto
qed

lemma parse_entries_Inr_Cons:
  "parse_entries dt (v # vs) = Inr ps \<longleftrightarrow>
     (\<exists>p ps'. BlocklistEntrySchema_parse dt v = Inr p \<and> parse_entries dt vs = Inr ps' \<and> ps = p # ps')"
  by (auto simp: and_then_Inr_iff)

lemma parse_entries_append:
  "parse_entries dt (vs @ [v]) = Inr ps \<Longrightarrow>
     \<exists>ps0 p. ps = ps0 @ [p] \<and> parse_entries dt vs = Inr ps0 \<and> BlocklistEntrySchema_parse dt v = Inr p"
proof (induction vs arbitrary: ps)
  case Nil
  then show ?case by (auto simp: and_then_Inr_iff)
next
  case (Cons w ws)
  from Cons.prems obtain p ps' where p: "BlocklistEntrySchema_parse dt w = Inr p"
    and r: "parse_entries dt (ws @ [v]) = Inr ps'" and ps: "ps = p # ps'"
    unfolding append_Cons parse_entries_Inr_Cons by blast
  from Cons.IH[OF r] obtain ps0 q where "ps' = ps0 @ [q]" "parse_entries dt ws = Inr ps0"
    "BlocklistEntrySchema_parse dt v = Inr q" by blast
  then show ?case using p ps by (intro exI[of _ "p # ps0"] exI[of _ q]) simp
qed

lemma parse_entries_with_hash:
  "parse_entries dt (map (\<lambda>(e, h). JObj (with_hash e h)) es) = Inr ps \<Longrightarrow>
   length hs = length es \<Longrightarrow>
     map (\<lambda>p. obj_get p ''hash'') ps = map (\<lambda>(e, h). JStr h) es \<and>
     parse_entries dt (map (\<lambda>(e, h). JObj (with_hash e h)) (zip (map fst es) hs)) =
       Inr (map (\<lambda>(p, h). with_hash p h) (zip ps hs))"
proof (induction es arbitrary: ps hs)
  case Nil
  then show ?case by simp
next
  case (Cons eh es)
  obtain e h where eh: "eh = (e, h)" by (cases eh)
  from Cons.prems(2) obtain h' hs' where hs: "hs = h' # hs'" and len: "length hs' = length es"
    by (cases hs) auto
  from Cons.prems(1) obtain p ps' where p: "BlocklistEntrySchema_parse dt (JObj (with_hash e h)) = Inr p"
    and r: "parse_entries dt (map (\<lambda>(e, h). JObj (with_hash e h)) es) = Inr ps'" and ps: "ps = p # ps'"
    unfolding eh list.map parse_entries_Inr_Cons by auto
  note IH = Cons.IH[OF r len]
  note E = entry_parse_with_hash(1)[OF p, of h'] entry_parse_with_hash(2)[OF p]
  show ?case unfolding ps hs eh using IH E by simp
qed

lemma obj_get_stored:
  "obj_get [(''version'', v), (''lastUpdated'', u), (''entries'', es)] ''version'' = v"
  "obj_get [(''version'', v), (''lastUpdated'', u), (''entries'', es)] ''lastUpdated'' = u"
  "obj_get [(''version'', v), (''lastUpdated'', u), (''entries'', es)] ''entries'' = es"
  by (simp_all add: obj_get_def)

lemma BlocklistSchema_parse_iff:
  "BlocklistSchema_parse dt (JObj [(''version'', v), (''lastUpdated'', u), (''entries'', JArr vs)]) = Inr bl \<longleftrightarrow>
     (\<exists>version updated ps. z_string_default ''1.0.0'' v = Inr version \<and> z_datetime dt u = Inr updated \<and>
        parse_entries dt vs = Inr ps \<and>
        bl = \<lparr>bl_version = version, lastUpdated = updated, entries = ps\<rparr>)"
  unfolding BlocklistSchema_parse_def jsval.case obj_get_stored and_then_Inr_iff by blast

lemma loadBlocklist_file:
  "fst (loadBlocklist dt (st\<lparr>blocklist_file := Some json\<rparr>)) = BlocklistSchema_parse dt json"
  by (simp add: loadBlocklist_def)

lemma loadBlocklist_state: "snd (loadBlocklist dt st) = st"
  by (simp add: loadBlocklist_def split: option.splits)

lemma filter_map_set_fresh:
  "k \<notin> fst ` set m \<Longrightarrow> filter (\<lambda>(k', v'). k' \<noteq> k) (map_set m k v) = m"
  by (induction m) auto

lemma addBlocklistEntry_Inr:
  "addBlocklistEntry dt H now st e = Inr st' \<Longrightarrow>
     \<exists>bl. fst (loadBlocklist dt st) = Inr bl \<and>
          st' = st\<lparr>blocklist_file := Some (blocklist_json
                    (bl\<lparr>entries := entries bl @ [fullEntry H e], lastUpdated := now\<rparr>))\<rparr>"
  by (auto simp: addBlocklistEntry_def loadBlocklist_def saveBlocklist_def split: option.splits sum.splits)

lemma fullEntry_hash:
  "obj_get (fullEntry H e) ''hash'' = JStr (calculateHash H e)"
  "distinct (Object_keys e) \<Longrightarrow> distinct (map fst (fullEntry H e))"
  by (simp_all add: fullEntry_def obj_get_map_set distinct_map_set Object_keys_def)

lemma parsed_saved_hash:
  assumes "BlocklistEntrySchema_parse dt (JObj (filter (\<lambda>(k, v). v \<noteq> JUndefined) e)) = Inr p"
    and "distinct (map fst e)"
  shows "obj_get p ''hash'' = obj_get e ''hash''" and "distinct (map fst p)"
  using entry_parse_hash[OF assms(1)] obj_get_filter_defined[OF assms(2)] by simp_all

lemma load_after_save:
  assumes "fst (loadBlocklist dt (st\<lparr>blocklist_file := Some (blocklist_json bl)\<rparr>)) = Inr bl'"
  shows "parse_entries dt (map (\<lambda>e. JObj (filter (\<lambda>(k, v). v \<noteq> JUndefined) e)) (entries bl)) = Inr (entries bl')"
  using assms unfolding loadBlocklist_file blocklist_json_def BlocklistSchema_parse_iff by auto

section \<open>Facts about the synchronisation\<close>

lemma fetch_file_docs:
  "fst (fetch_file env owner repo br file (docs, msgs)) =
     docs @ (case file_document env owner repo br file of None \<Rightarrow> [] | Some d \<Rightarrow> [d])"
  by (auto simp: fetch_file_def file_document_def split: option.splits sum.splits)

lemma fold_fetch_file_docs:
  "fst (fold (fetch_file env owner repo br) files (docs, msgs)) =
     docs @ List.map_filter (file_document env owner repo br) files"
proof (induction files arbitrary: docs msgs)
  case Nil
  then show ?case by (simp add: List.map_filter_simps)
next
  case (Cons f fs)
  obtain docs' msgs' where s: "fetch_file env owner repo br f (docs, msgs) = (docs', msgs')"
    by (cases "fetch_file env owner repo br f (docs, msgs)")
  with fetch_file_docs[of env owner repo br f docs msgs]
  have d: "docs' = docs @ (case file_document env owner repo br f of None \<Rightarrow> [] | Some d \<Rightarrow> [d])"
    by simp
  show ?case using Cons.IH[of docs' msgs'] s d
    by (cases "file_document env owner repo br f") (simp_all add: List.map_filter_simps)
qed

lemma fetchFilesFromRepo_docs:
  "fst (fetchFilesFromRepo env rx owner repo br inc exc) =
     (if ensureRepoDir env owner repo then
        (case getTree env owner repo br of
           Inl e \<Rightarrow> []
         | Inr tree \<Rightarrow>
             (case matchingFiles rx inc exc tree of
                Inl e \<Rightarrow> []
              | Inr files \<Rightarrow> List.map_filter (file_document env owner repo br) files))
      else [])"
  by (simp add: fetchFilesFromRepo_def fold_fetch_file_docs split: sum.splits)

lemma sync_repo_documents:
  "srv_documents (sync_repo env rx source srv) = addDocuments (srv_documents srv) (batch env rx source)"
  by (cases source) (simp add: sync_repo_def batch_def split: prod.splits)

lemma fold_sync_repo_documents:
  "srv_documents (fold (sync_repo env rx) sources srv) =
     fold (\<lambda>source docs. addDocuments docs (batch env rx source)) sources (srv_documents srv)"
  by (induction sources arbitrary: srv) (simp_all add: sync_repo_documents)

lemma documents_say: "srv_documents (say msgs srv) = srv_documents srv"
  by (simp add: say_def)

lemma keys_map_set: "fst ` set (map_set m k v) = insert k (fst ` set m)"
  using map_fst_map_set[of m k v] by simp

lemma keys_addDocuments:
  "fst ` set (addDocuments m docs) = fst ` set m \<union> doc_id ` set docs"
  unfolding addDocuments_def
  by (induction docs arbitrary: m) (auto simp: keys_map_set)

lemma keys_fold_batches:
  "fst ` set (fold (\<lambda>source docs. addDocuments docs (batch env rx source)) sources m) =
     fst ` set m \<union> (\<Union>source \<in> set sources. doc_id ` set (batch env rx source))"
  by (induction sources arbitrary: m) (auto simp: keys_addDocuments)

lemma syncKnowledgeBase_documents:
  assumes "loadConfig = Inr config"
  shows "\<exists>srv'. syncKnowledgeBase env rx True loadConfig force srv = Inr srv' \<and>
     srv_documents srv' = fold (\<lambda>source docs. addDocuments docs (batch env rx source))
                        (pass_sources env config) (if force then [] else srv_documents srv)"
proof -
  obtain userRepos msgs where d: "discoverUserRepos env = (userRepos, msgs)"
    by (cases "discoverUserRepos env")
  show ?thesis
    unfolding syncKnowledgeBase_def assms pass_sources_def Let_def d
    by (simp add: fold_sync_repo_documents documents_say)
qed

lemma fetch_file_msgs:
  "set msgs \<subseteq> set (snd (fetch_file env owner repo br file (docs, msgs)))"
  by (auto simp: fetch_file_def split: option.splits sum.splits)

lemma fold_fetch_file_msgs:
  "set msgs \<subseteq> set (snd (fold (fetch_file env owner repo br) files (docs, msgs)))"
proof (induction files arbitrary: docs msgs)
  case Nil
  then show ?case by simp
next
  case (Cons f fs)
  obtain docs' msgs' where s: "fetch_file env owner repo br f (docs, msgs) = (docs', msgs')"
    by (cases "fetch_file env owner repo br f (docs, msgs)")
  with fetch_file_msgs[of msgs env owner repo br f docs] have "set msgs \<subseteq> set msgs'" by simp
  with Cons.IH[of msgs' docs'] show ?case using s by auto
qed

lemma fetchFilesFromRepo_says:
  "FetchingFiles owner repo \<in> set (snd (fetchFilesFromRepo env rx owner repo br inc exc))"
proof -
  have "FetchingFiles owner repo \<in> set (snd (fold (fetch_file env owner repo br) files
      ([], [FetchingFiles owner repo, FoundMatchingFiles (length files)])))" for files
    using fold_fetch_file_msgs[of "[FetchingFiles owner repo, FoundMatchingFiles (length files)]"
        env owner repo br files "[]"]
    by auto
  then show ?thesis by (simp add: fetchFilesFromRepo_def split: sum.splits)
qed

lemma sync_repo_console:
  "set (srv_console srv) \<subseteq> set (srv_console (sync_repo env rx source srv))"
  "source = (owner, repo, rest) \<Longrightarrow> FetchingFiles owner repo \<in> set (srv_console (sync_repo env rx source srv))"
proof -
  show "set (srv_console srv) \<subseteq> set (srv_console (sync_repo env rx source srv))"
    by (auto simp: sync_repo_def split: prod.splits)
  show "FetchingFiles owner repo \<in> set (srv_console (sync_repo env rx source srv))"
    if "source = (owner, repo, rest)"
  proof -
    obtain br inc exc where r: "rest = (br, inc, exc)" by (cases rest)
    obtain docs msgs where f: "fetchFilesFromRepo env rx owner repo br inc exc = (docs, msgs)"
      by (cases "fetchFilesFromRepo env rx owner repo br inc exc")
    with fetchFilesFromRepo_says[of owner repo env rx br inc exc]
    have "FetchingFiles owner repo \<in> set msgs" by simp
    then show ?thesis using that r f by (simp add: sync_repo_def)
  qed
qed

lemma fold_sync_repo_console:
  "set (srv_console srv) \<subseteq> set (srv_console (fold (sync_repo env rx) sources srv))"
  "(owner, repo, rest) \<in> set sources \<Longrightarrow>
     FetchingFiles owner repo \<in> set (srv_console (fold (sync_repo env rx) sources srv))"
proof (induction sources arbitrary: srv)
  case Nil
  { case 1 show ?case by simp }
  { case 2 then show ?case by simp }
next
  case (Cons s ss)
  { case 1
    show ?case using Cons.IH(1)[of "sync_repo env rx s srv"] sync_repo_console(1)[of srv env rx s]
      by auto }
  { case 2
    then consider "s = (owner, repo, rest)" | "(owner, repo, rest) \<in> set ss" by auto
    then show ?case
    proof cases
      case 1
      from sync_repo_console(2)[OF 1, of env rx srv] Cons.IH(1)[of "sync_repo env rx s srv"]
      show ?thesis by auto
    next
      case 2
      from Cons.IH(2)[OF 2] show ?thesis by simp
    qed }
qed

lemma console_say: "srv_console (say msgs srv) = srv_console srv @ msgs"
  by (simp add: say_def)

lemma syncKnowledgeBase_console:
  assumes "loadConfig = Inr config"
    and "syncKnowledgeBase env rx True loadConfig force srv = Inr srv'"
    and "(owner, repo, rest) \<in> set (pass_sources env config)"
  shows "FetchingFiles owner repo \<in> set (srv_console srv')"
proof -
  obtain userRepos msgs where d: "discoverUserRepos env = (userRepos, msgs)"
    by (cases "discoverUserRepos env")
  define srv1 where "srv1 = (if force then srv\<lparr>srv_documents := []\<rparr> else srv)"
  define srv2 where "srv2 = (if autoDiscoverUserRepos (sync config) then
       fold (sync_repo env rx) (user_sources userRepos)
         (say ([AutoDiscovering] @ msgs @ [FoundUserRepositories (length userRepos)]) srv1)
     else srv1)"
  define srv3 where "srv3 = (if includeOfficialMCPRepos (sync config)
       then fold (sync_repo env rx) official_sources (say [FetchingOfficial] srv2) else srv2)"
  define srv4 where "srv4 = (if includeCommunityRepos (sync config)
       then fold (sync_repo env rx) community_sources (say [FetchingCommunity] srv3) else srv3)"
  define srv5 where "srv5 = fold (sync_repo env rx) (configured_sources config) srv4"
  have "syncKnowledgeBase env rx True loadConfig force srv = Inr (say [SyncComplete] srv5)"
    unfolding syncKnowledgeBase_def assms(1) Let_def d srv1_def srv2_def srv3_def srv4_def srv5_def
    by simp
  with assms(2) have res: "srv' = say [SyncComplete] srv5" by simp
  have m23: "set (srv_console srv2) \<subseteq> set (srv_console srv3)"
    unfolding srv3_def using fold_sync_repo_console(1)[of "say [FetchingOfficial] srv2" env rx official_sources]
    by (auto simp: console_say)
  have m34: "set (srv_console srv3) \<subseteq> set (srv_console srv4)"
    unfolding srv4_def using fold_sync_repo_console(1)[of "say [FetchingCommunity] srv3" env rx community_sources]
    by (auto simp: console_say)
  have m45: "set (srv_console srv4) \<subseteq> set (srv_console srv5)"
    unfolding srv5_def by (rule fold_sync_repo_console(1))
  from assms(3) consider
      "autoDiscoverUserRepos (sync config)" "(owner, repo, rest) \<in> set (user_sources userRepos)"
    | "includeOfficialMCPRepos (sync config)" "(owner, repo, rest) \<in> set official_sources"
    | "includeCommunityRepos (sync config)" "(owner, repo, rest) \<in> set community_sources"
    | "(owner, repo, rest) \<in> set (configured_sources config)"
    unfolding pass_sources_def d by (auto split: if_splits)
  then have "FetchingFiles owner repo \<in> set (srv_console srv5)"
  proof cases
    case 1
    then have "FetchingFiles owner repo \<in> set (srv_console srv2)"
      unfolding srv2_def using 1(1) fold_sync_repo_console(2)[OF 1(2)] by simp
    then show ?thesis using m23 m34 m45 by blast
  next
    case 2
    then have "FetchingFiles owner repo \<in> set (srv_console srv3)"
      unfolding srv3_def using 2(1) fold_sync_repo_console(2)[OF 2(2)] by simp
    then show ?thesis using m34 m45 by blast
  next
    case 3
    then have "FetchingFiles owner repo \<in> set (srv_console srv4)"
      unfolding srv4_def using 3(1) fold_sync_repo_console(2)[OF 3(2)] by simp
    then show ?thesis using m45 by blast
  next
    case 4
    show ?thesis unfolding srv5_def by (rule fold_sync_repo_console(2)[OF 4])
  qed
  then show ?thesis unfolding res by (simp add: console_say)
qed

section \<open>Search: the claims\<close>

text \<open>
  Claim C3 (every relevance score lies in the closed interval from 0 to 1) fails on the
  code. For the empty query every document is a match, and \<open>split\<close> of the empty
  content at the empty separator is the empty array: the match count is \<open>-1\<close> and the
  score of an empty document is \<open>-1/10\<close>, below the range that \<open>SearchResultSchema\<close>
  and the comment in \<open>search\<close> give.
\<close>

theorem search_score_negative:
  "search [(''o/r/main/empty.md'', example_doc ''o/r/main/empty.md'' [])] [] 10 =
     [\<lparr>document = example_doc ''o/r/main/empty.md'' [], score = - (1 / 10), snippet = ''......''\<rparr>]"
  by (simp add: search_def search_results_def map_values_def search_doc_def toLowerCase_def
      split_str_def slice_def sort_cmp_def example_doc_def)




text \<open>
  Claim C5 as stated (\<open>search\<close> includes a document in its results exactly when the
  content contains the query) fails when more documents match than \<open>maxResults\<close>
  allows: of two documents with the content \<open>foo\<close> and one result asked for, the second
  contains the query and is not among the results.
\<close>

theorem search_truncated_counterexample:
  "example_doc ''b'' ''foo'' \<in> set (map_values [(''a'', example_doc ''a'' ''foo''), (''b'', example_doc ''b'' ''foo'')]) \<and>
   includes_str (toLowerCase (content (example_doc ''b'' ''foo''))) (toLowerCase ''foo'') \<and>
   map document (search [(''a'', example_doc ''a'' ''foo''), (''b'', example_doc ''b'' ''foo'')] ''foo'' 1) =
     [example_doc ''a'' ''foo''] \<and>
   example_doc ''b'' ''foo'' \<noteq> example_doc ''a'' ''foo''"
  by code_simp

text \<open>
  Claim C5, amended: for a non-empty query, the loop of \<open>search\<close> pushes a result for a
  document of the index exactly when the lower-cased content contains the lower-cased
  query; the score of a result is the minimum of a tenth of \<open>occurrenceCount\<close> and 1, so
  it is 1 from ten occurrences on; \<open>occurrenceCount\<close> is the greatest number of
  occurrences of the lower-cased query of which no two overlap. \<open>search\<close> returns the
  first \<open>maxResults\<close> of the results of the loop in their sorted order (for a negative
  \<open>maxResults\<close>, all but the last \<open>-maxResults\<close>): a document of the index is among the
  results returned exactly when its content contains the query and its result stands at
  one of these places of the sorted list. The number of results returned is the smaller
  of that number of places and the number of matching documents, and all results of the
  loop are returned when \<open>maxResults\<close> is at least their number.
\<close>

theorem search_score_occurrences:
  "query \<noteq> [] \<Longrightarrow>
     (\<forall>doc \<in> set (map_values documents).
        (\<exists>r \<in> set (search_results documents query). document r = doc) \<longleftrightarrow>
        includes_str (toLowerCase (content doc)) (toLowerCase query)) \<and>
     (\<forall>r \<in> set (search_results documents query).
        score r = min (of_nat (occurrenceCount (toLowerCase (content (document r))) (toLowerCase query)) / 10) 1 \<and>
        (10 \<le> occurrenceCount (toLowerCase (content (document r))) (toLowerCase query) \<longrightarrow> score r = 1)) \<and>
     (\<forall>c P. non_overlapping_occurrences (toLowerCase query) c P \<longrightarrow>
        card P \<le> occurrenceCount c (toLowerCase query)) \<and>
     (\<forall>c. \<exists>P. finite P \<and> non_overlapping_occurrences (toLowerCase query) c P \<and>
        card P = occurrenceCount c (toLowerCase query)) \<and>
     set (search documents query maxResults) \<subseteq> set (search_results documents query) \<and>
     (int (length (search_results documents query)) \<le> maxResults \<longrightarrow>
        mset (search documents query maxResults) = mset (search_results documents query)) \<and>
     search documents query maxResults =
       take (if maxResults < 0 then nat (int (length (search_results documents query)) + maxResults)
             else nat maxResults)
         (sort_cmp (\<lambda>a b. score b - score a) (search_results documents query)) \<and>
     length (search documents query maxResults) =
       min (length (search_results documents query))
         (if maxResults < 0 then nat (int (length (search_results documents query)) + maxResults)
          else nat maxResults) \<and>
     (\<forall>doc \<in> set (map_values documents).
        (\<exists>r \<in> set (search documents query maxResults). document r = doc) \<longleftrightarrow>
        includes_str (toLowerCase (content doc)) (toLowerCase query) \<and>
        (\<exists>i. i < (if maxResults < 0 then nat (int (length (search_results documents query)) + maxResults)
                   else nat maxResults) \<and>
             i < length (search_results documents query) \<and>
             document (sort_cmp (\<lambda>a b. score b - score a) (search_results documents query) ! i) = doc))"
proof -
  assume q: "query \<noteq> []"
  let ?ql = "toLowerCase query"
  let ?rs = "search_results documents query"
  let ?S = "sort_cmp (\<lambda>a b. score b - score a) ?rs"
  let ?m = "if maxResults < 0 then nat (int (length ?rs) + maxResults) else nat maxResults"
  have ql: "?ql \<noteq> []" using q by (simp add: toLowerCase_Nil_iff)
  have a: "(\<exists>r \<in> set ?rs. document r = doc) \<longleftrightarrow> includes_str (toLowerCase (content doc)) ?ql"
    if "doc \<in> set (map_values documents)" for doc
  proof -
    have "(\<exists>r \<in> set ?rs. document r = doc) \<longleftrightarrow> doc \<in> set (map document ?rs)" by auto
    also have "\<dots> \<longleftrightarrow> includes_str (toLowerCase (content doc)) ?ql"
      using that by (simp add: search_results_documents)
    finally show ?thesis .
  qed
  have b: "score r = min (of_nat (occurrenceCount (toLowerCase (content (document r))) ?ql) / 10) 1 \<and>
        (10 \<le> occurrenceCount (toLowerCase (content (document r))) ?ql \<longrightarrow> score r = 1)"
    if "r \<in> set ?rs" for r
  proof -
    from search_results_sound[OF that] have sd: "search_doc ?ql (document r) = Some r" by simp
    have "score r = min (of_nat (occurrenceCount (toLowerCase (content (document r))) ?ql) / 10) 1"
      using search_doc_Some[OF sd] by (simp add: length_split_str[OF ql])
    then show ?thesis by (auto simp: min_def)
  qed
  have c: "set (search documents query maxResults) \<subseteq> set ?rs" using in_search by blast
  have d: "mset (search documents query maxResults) = mset ?rs"
    if "int (length ?rs) \<le> maxResults"
    using that by (simp add: search_take)
  have e: "\<forall>c P. non_overlapping_occurrences ?ql c P \<longrightarrow> card P \<le> occurrenceCount c ?ql"
    using occurrenceCount_upper[OF ql] by blast
  have f: "\<forall>c. \<exists>P. finite P \<and> non_overlapping_occurrences ?ql c P \<and> card P = occurrenceCount c ?ql"
    using occurrenceCount_attained[OF ql] by blast
  have g: "search documents query maxResults = take ?m ?S"
    unfolding sort_cmp_score by (rule search_take)
  have lenS: "length ?S = length ?rs" by (simp add: sort_cmp_score)
  have h: "length (search documents query maxResults) = min (length ?rs) ?m"
    unfolding g by (simp add: lenS)
  have i: "(\<exists>r \<in> set (search documents query maxResults). document r = doc) \<longleftrightarrow>
        includes_str (toLowerCase (content doc)) ?ql \<and>
        (\<exists>i. i < ?m \<and> i < length ?rs \<and> document (?S ! i) = doc)"
    if mem: "doc \<in> set (map_values documents)" for doc
  proof
    assume "\<exists>r \<in> set (search documents query maxResults). document r = doc"
    then obtain r where r: "r \<in> set (take ?m ?S)" and dr: "document r = doc"
      unfolding g by blast
    from r obtain j where j: "j < length (take ?m ?S)" "take ?m ?S ! j = r"
      unfolding in_set_conv_nth by blast
    then have "j < ?m" "j < length ?rs" "?S ! j = r" by (simp_all add: lenS)
    moreover from r have "r \<in> set ?rs" using c unfolding g by blast
    then have "includes_str (toLowerCase (content doc)) ?ql"
      using a[OF mem] dr by blast
    ultimately show "includes_str (toLowerCase (content doc)) ?ql \<and>
        (\<exists>i. i < ?m \<and> i < length ?rs \<and> document (?S ! i) = doc)"
      using dr by blast
  next
    assume "includes_str (toLowerCase (content doc)) ?ql \<and>
        (\<exists>i. i < ?m \<and> i < length ?rs \<and> document (?S ! i) = doc)"
    then obtain j where j: "j < ?m" "j < length ?rs" "document (?S ! j) = doc" by blast
    then have "j < length (take ?m ?S)" by (simp add: lenS)
    moreover from j have "take ?m ?S ! j = ?S ! j" by simp
    ultimately have "?S ! j \<in> set (take ?m ?S)" by (metis nth_mem)
    then show "\<exists>r \<in> set (search documents query maxResults). document r = doc"
      unfolding g using j(3) by blast
  qed
  show ?thesis using a b c d e f g h i by blast
qed

text \<open>The amended claim C5 on the examples of the specification: three occurrences
  score 3/10, thirty occurrences score 1; and on the example index with one result
  asked for, where the best match is returned alone.\<close>

theorem search_score_occurrences_witness:
  "''foo'' \<noteq> [] \<and>
   occurrenceCount (toLowerCase ''foo foo foo'') (toLowerCase ''foo'') = 3 \<and>
   map score (search_results [(''d'', example_doc ''d'' ''foo foo foo'')] ''foo'') = [3 / 10] \<and>
   map score (search [(''e'', example_doc ''e'' (concat (replicate 30 ''Foo '')))] ''foo'' 10) = [1] \<and>
   length (search_results example_index ''foo'') = 3 \<and>
   length (search example_index ''foo'' 1) = 1 \<and>
   map (\<lambda>r. doc_id (document r)) (search example_index ''foo'' 1) = [''b'']"
proof -
  have q: "''foo'' \<noteq> []" by simp
  have o3: "occurrenceCount (toLowerCase ''foo foo foo'') (toLowerCase ''foo'') = 3" by code_simp
  have o30: "occurrenceCount (toLowerCase (concat (replicate 30 ''Foo ''))) (toLowerCase ''foo'') = 30"
    by code_simp
  have d: "map document (search_results [(''d'', example_doc ''d'' ''foo foo foo'')] ''foo'') =
      [example_doc ''d'' ''foo foo foo'']"
    by code_simp
  have e: "map document (search [(''e'', example_doc ''e'' (concat (replicate 30 ''Foo '')))] ''foo'' 10) =
      [example_doc ''e'' (concat (replicate 30 ''Foo ''))]"
    by code_simp
  have c: "content (example_doc i s) = s" for i s by (simp add: example_doc_def)
  note T1 = search_score_occurrences[OF q, of "[(''d'', example_doc ''d'' ''foo foo foo'')]" 10]
  note T2 = search_score_occurrences[OF q, of "[(''e'', example_doc ''e'' (concat (replicate 30 ''Foo '')))]" 10]
  note T3 = search_score_occurrences[OF q, of example_index 1]
  from d obtain r where r: "search_results [(''d'', example_doc ''d'' ''foo foo foo'')] ''foo'' = [r]"
    and dr: "document r = example_doc ''d'' ''foo foo foo''" by auto
  from T1 r
  have "score r = min (of_nat (occurrenceCount (toLowerCase (content (document r))) (toLowerCase ''foo'')) / 10) 1"
    by simp
  then have sr: "score r = 3 / 10" unfolding dr c o3 by simp
  from e obtain r' where r': "search [(''e'', example_doc ''e'' (concat (replicate 30 ''Foo '')))] ''foo'' 10 = [r']"
    and dr': "document r' = example_doc ''e'' (concat (replicate 30 ''Foo ''))" by auto
  from T2 r'
  have "10 \<le> occurrenceCount (toLowerCase (content (document r'))) (toLowerCase ''foo'') \<longrightarrow> score r' = 1"
    by auto
  then have sr': "score r' = 1" unfolding dr' c o30 by simp
  have n: "length (search_results example_index ''foo'') = 3" by code_simp
  from T3 have "length (search example_index ''foo'' 1) =
      min (length (search_results example_index ''foo'')) (if (1::int) < 0
        then nat (int (length (search_results example_index ''foo'')) + 1) else nat 1)"
    by blast
  then have l: "length (search example_index ''foo'' 1) = 1" unfolding n by simp
  have b: "map (\<lambda>r. doc_id (document r)) (search example_index ''foo'' 1) = [''b'']" by code_simp
  show ?thesis using q o3 r sr r' sr' n l b by simp
qed

text \<open>
  Claim C7: the results of the loop, sorted, are a permutation of these results that is
  sorted by score, highest first, and in which the results of every score keep the
  order of the loop, which is the order of the map. \<open>search\<close> returns the first
  \<open>maxResults\<close> results of this sorted list (for a negative \<open>maxResults\<close>, all but the
  last \<open>-maxResults\<close>): truncation comes after sorting. So the list returned has the
  smaller of \<open>maxResults\<close> and the number of results of the loop as its length, is
  sorted by score, highest first, has its results of every score in the order of the
  loop, and nothing cut off scores higher than anything returned.
\<close>

theorem search_sorted_stable:
  "sorted_wrt (\<lambda>a b. score b \<le> score a) (search documents query maxResults) \<and>
   (\<forall>k. prefix (filter (\<lambda>r. score r = k) (search documents query maxResults))
               (filter (\<lambda>r. score r = k) (search_results documents query))) \<and>
   map document (search_results documents query) =
     filter (\<lambda>doc. includes_str (toLowerCase (content doc)) (toLowerCase query)) (map_values documents) \<and>
   mset (sort_cmp (\<lambda>a b. score b - score a) (search_results documents query)) =
     mset (search_results documents query) \<and>
   (\<exists>rest. sort_cmp (\<lambda>a b. score b - score a) (search_results documents query) =
             search documents query maxResults @ rest \<and>
           (\<forall>a \<in> set (search documents query maxResults). \<forall>b \<in> set rest. score b \<le> score a)) \<and>
   sorted_wrt (\<lambda>a b. score b \<le> score a)
     (sort_cmp (\<lambda>a b. score b - score a) (search_results documents query)) \<and>
   (\<forall>k. filter (\<lambda>r. score r = k) (sort_cmp (\<lambda>a b. score b - score a) (search_results documents query)) =
        filter (\<lambda>r. score r = k) (search_results documents query)) \<and>
   search documents query maxResults =
     take (if maxResults < 0 then nat (int (length (search_results documents query)) + maxResults)
           else nat maxResults)
       (sort_cmp (\<lambda>a b. score b - score a) (search_results documents query)) \<and>
   length (search documents query maxResults) =
     min (length (search_results documents query))
       (if maxResults < 0 then nat (int (length (search_results documents query)) + maxResults)
        else nat maxResults) \<and>
   (0 \<le> maxResults \<longrightarrow>
      length (search documents query maxResults) =
        min (nat maxResults) (length (search_results documents query)))"
proof -
  let ?rs = "search_results documents query"
  let ?sorted = "sort_key (\<lambda>r. - score r) ?rs"
  let ?m = "if maxResults < 0 then nat (int (length ?rs) + maxResults) else nat maxResults"
  have s: "search documents query maxResults = take ?m ?sorted" by (rule search_take)
  have sorted: "sorted_wrt (\<lambda>a b. score b \<le> score a) ?sorted" by (rule sorted_desc_sort)
  have 1: "sorted_wrt (\<lambda>a b. score b \<le> score a) (search documents query maxResults)"
    unfolding s using sorted by (rule sorted_wrt_take)
  have 2: "prefix (filter (\<lambda>r. score r = k) (search documents query maxResults))
               (filter (\<lambda>r. score r = k) ?rs)" for k
    unfolding s using prefix_filter_take[of "\<lambda>r. score r = k" ?m ?sorted]
    by (simp only: sort_score_stable)
  have 4: "mset (sort_cmp (\<lambda>a b. score b - score a) ?rs) = mset ?rs"
    by (simp add: sort_cmp_score)
  have split: "?sorted = take ?m ?sorted @ drop ?m ?sorted" by simp
  have "sorted_wrt (\<lambda>a b. score b \<le> score a) (take ?m ?sorted @ drop ?m ?sorted)"
    using sorted by simp
  then have "\<forall>a \<in> set (take ?m ?sorted). \<forall>b \<in> set (drop ?m ?sorted). score b \<le> score a"
    unfolding sorted_wrt_append by blast
  then have 5: "\<exists>rest. sort_cmp (\<lambda>a b. score b - score a) ?rs = search documents query maxResults @ rest \<and>
           (\<forall>a \<in> set (search documents query maxResults). \<forall>b \<in> set rest. score b \<le> score a)"
    unfolding s sort_cmp_score by (intro exI[of _ "drop ?m ?sorted"]) simp
  have 6: "sorted_wrt (\<lambda>a b. score b \<le> score a) (sort_cmp (\<lambda>a b. score b - score a) ?rs)"
    unfolding sort_cmp_score by (rule sorted)
  have 7: "\<forall>k. filter (\<lambda>r. score r = k) (sort_cmp (\<lambda>a b. score b - score a) ?rs) =
        filter (\<lambda>r. score r = k) ?rs"
    unfolding sort_cmp_score by (simp add: sort_score_stable)
  have 8: "search documents query maxResults = take ?m (sort_cmp (\<lambda>a b. score b - score a) ?rs)"
    unfolding sort_cmp_score by (rule s)
  have 9: "length (search documents query maxResults) = min (length ?rs) ?m"
    unfolding s by simp
  have 10: "0 \<le> maxResults \<longrightarrow>
      length (search documents query maxResults) = min (nat maxResults) (length ?rs)"
    unfolding s by (simp add: min.commute)
  show ?thesis using 1 2 4 5 6 7 8 9 10 search_results_documents by blast
qed

text \<open>Claim C7 on the example index: two results of three, the tie between \<open>a\<close> and
  \<open>d\<close> goes to \<open>a\<close>, which the map holds first.\<close>

theorem search_sorted_stable_witness:
  "map (\<lambda>r. (doc_id (document r), score r)) (search example_index ''foo'' 2) = [(''b'', 3 / 10), (''a'', 1 / 10)] \<and>
   length (search_results example_index ''foo'') = 3 \<and>
   length (search example_index ''foo'' 2) = 2 \<and>
   sorted_wrt (\<lambda>a b. score b \<le> score a) (search example_index ''foo'' 2) \<and>
   prefix (filter (\<lambda>r. score r = 1 / 10) (search example_index ''foo'' 2))
          (filter (\<lambda>r. score r = 1 / 10) (search_results example_index ''foo''))"
proof -
  have e: "map (\<lambda>r. (doc_id (document r), score r)) (search example_index ''foo'' 2) = [(''b'', 3 / 10), (''a'', 1 / 10)]"
    by code_simp
  have n: "length (search_results example_index ''foo'') = 3" by code_simp
  note T = search_sorted_stable[of example_index "''foo''" 2]
  from T have "0 \<le> (2::int) \<longrightarrow> length (search example_index ''foo'' 2) =
      min (nat 2) (length (search_results example_index ''foo''))"
    by blast
  then have l: "length (search example_index ''foo'' 2) = 2" unfolding n by simp
  from T e n l show ?thesis by blast
qed

text \<open>
  Claim C10: for the empty query the loop pushes one result for every document of the
  index, in the order of the map; \<open>search\<close> returns some of these results,
  \<open>maxResults\<close> of them or all when there are fewer; the first occurrence is at offset
  0 and each snippet is the first 200 characters of the content between ellipsis markers.
\<close>

theorem search_empty_query:
  "map document (search_results documents []) = map_values documents \<and>
   mset (search documents [] maxResults) \<subseteq># mset (search_results documents []) \<and>
   (0 \<le> maxResults \<longrightarrow> length (search documents [] maxResults) = min (nat maxResults) (length documents)) \<and>
   (\<forall>r \<in> set (search documents [] maxResults).
       document r \<in> set (map_values documents) \<and>
       indexOf (toLowerCase (content (document r))) (toLowerCase []) = 0 \<and>
       snippet r = ''...'' @ take 200 (content (document r)) @ ''...'')"
proof -
  let ?rs = "search_results documents []"
  let ?sorted = "sort_key (\<lambda>r. - score r) ?rs"
  have docs: "map document ?rs = map_values documents"
    by (simp add: search_results_documents toLowerCase_Nil includes_str_empty)
  then have "length (map document ?rs) = length (map_values documents)" by simp
  then have len: "length ?rs = length documents" by (simp add: map_values_def)
  have sub: "mset (search documents [] maxResults) \<subseteq># mset ?rs"
  proof -
    have "mset (take m ?sorted) \<subseteq># mset ?sorted" for m
      by (metis append_take_drop_id mset_append mset_subset_eq_add_left)
    then show ?thesis unfolding search_take by simp
  qed
  have l: "length (search documents [] maxResults) = min (nat maxResults) (length documents)"
    if "0 \<le> maxResults"
    using that len by (simp add: search_take min.commute)
  have r: "document r \<in> set (map_values documents) \<and>
       indexOf (toLowerCase (content (document r))) (toLowerCase []) = 0 \<and>
       snippet r = ''...'' @ take 200 (content (document r)) @ ''...''"
    if "r \<in> set (search documents [] maxResults)" for r
  proof -
    from that have mem: "r \<in> set ?rs" by (rule in_search)
    from search_results_sound[OF mem]
    have sd: "search_doc [] (document r) = Some r" and d: "document r \<in> set (map_values documents)"
      by (simp_all add: toLowerCase_Nil)
    have "slice c 0 (min (int (length c)) 200) = take 200 c" for c :: string
      by (auto simp: slice_def Let_def min_def)
    then show ?thesis using search_doc_Some[OF sd] d by (simp add: indexOf_empty toLowerCase_Nil)
  qed
  show ?thesis using docs sub l r by blast
qed

text \<open>Claim C10 on the example index of four documents, with three results asked for.\<close>

theorem search_empty_query_witness:
  "length (search example_index [] 3) = 3 \<and>
   map snippet (search_results example_index []) = [''...foo...'', ''...Foo foo FOO...'', ''...bar...'', ''...xfoo...''] \<and>
   hd (search example_index [] 3) \<in> set (search example_index [] 3) \<and>
   snippet (hd (search example_index [] 3)) =
     ''...'' @ take 200 (content (document (hd (search example_index [] 3)))) @ ''...''"
proof -
  have n: "length example_index = 4" by code_simp
  have e: "map snippet (search_results example_index []) = [''...foo...'', ''...Foo foo FOO...'', ''...bar...'', ''...xfoo...'']"
    by code_simp
  from search_empty_query[of example_index 3] n
  have l: "length (search example_index [] 3) = 3" by simp
  then have mem: "hd (search example_index [] 3) \<in> set (search example_index [] 3)"
    by (cases "search example_index [] 3") auto
  with search_empty_query[of example_index 3] l e show ?thesis by blast
qed

section \<open>The pattern matcher: the claims\<close>

text \<open>
  Claim C1 on the code: \<open>a/b/c.md\<close> matches \<open>a/**/*.md\<close> and does not match
  \<open>a/*.md\<close>, as the claim says. The third example fails: the replacement of \<open>*\<close>
  runs over the \<open>.*\<close> that the replacement of \<open>**\<close> has just written, so that
  \<open>**\<close> ends as one character followed by characters other than \<open>/\<close>, and
  \<open>x/node_modules/y/z.ts\<close> does not match \<open>**/node_modules/**\<close>.
\<close>

theorem matchPattern_examples:
  "matchPattern RegExp_test ''a/b/c.md'' ''a/**/*.md'' = Inr True \<and>
   matchPattern RegExp_test ''a/b/c.md'' ''a/*.md'' = Inr False \<and>
   regexPattern ''**/node_modules/**'' = ''.[^/]*/node_modules/.[^/]*'' \<and>
   matchPattern RegExp_test ''x/node_modules/y/z.ts'' ''**/node_modules/**'' = Inr False"
  by (simp add: rx_eval)

text \<open>
  Claim C6 as stated (for every path, eligible means some include pattern matches and no
  exclude pattern matches) fails at the empty path: the include pattern \<open>*\<close> matches it
  and the exclude pattern does not, and the filter still drops the entry, since an empty
  path is falsy. It fails as well at the path of a directory, which the filter drops
  for its type before any pattern is tried.
\<close>

theorem isMatchingFile_empty_path_counterexample:
  "some_pattern RegExp_test [] [''*''] = Inr True \<and>
   some_pattern RegExp_test [] [''**/node_modules/**''] = Inr False \<and>
   isMatchingFile RegExp_test [''*''] [''**/node_modules/**'']
     \<lparr>item_path = Some [], item_type = Some ''blob'', item_sha = Some ''s'', item_size = Some 0\<rparr>
     = Inr False \<and>
   some_pattern RegExp_test ''docs'' [''*''] = Inr True \<and>
   some_pattern RegExp_test ''docs'' [''**/node_modules/**''] = Inr False \<and>
   isMatchingFile RegExp_test [''*''] [''**/node_modules/**'']
     \<lparr>item_path = Some ''docs'', item_type = Some ''tree'', item_sha = Some ''s'', item_size = None\<rparr>
     = Inr False"
  by (simp add: isMatchingFile_def rx_eval)

text \<open>
  Claim C6, amended: with no include pattern the filter keeps no entry; and when no test
  of a pattern against the path of the entry raises an error, the filter keeps the entry
  exactly when it is a blob, has a path that is not empty, some include pattern matches
  the path and no exclude pattern matches it.
\<close>

theorem isMatchingFile_eligible:
  "isMatchingFile rx [] excludePatterns item = Inr False \<and>
   ((\<forall>path. item_path item = Some path \<longrightarrow>
       (\<forall>p \<in> set includePatterns \<union> set excludePatterns. \<exists>b. matchPattern rx path p = Inr b)) \<longrightarrow>
    isMatchingFile rx includePatterns excludePatterns item =
      Inr (item_type item = Some ''blob'' \<and>
           (\<exists>path. item_path item = Some path \<and> path \<noteq> [] \<and>
              (\<exists>p \<in> set includePatterns. matchPattern rx path p = Inr True) \<and>
              \<not> (\<exists>p \<in> set excludePatterns. matchPattern rx path p = Inr True))))"
proof (intro conjI impI)
  show "isMatchingFile rx [] excludePatterns item = Inr False"
    by (simp add: isMatchingFile_def split: option.splits)
next
  assume ok: "\<forall>path. item_path item = Some path \<longrightarrow>
       (\<forall>p \<in> set includePatterns \<union> set excludePatterns. \<exists>b. matchPattern rx path p = Inr b)"
  show "isMatchingFile rx includePatterns excludePatterns item =
      Inr (item_type item = Some ''blob'' \<and>
           (\<exists>path. item_path item = Some path \<and> path \<noteq> [] \<and>
              (\<exists>p \<in> set includePatterns. matchPattern rx path p = Inr True) \<and>
              \<not> (\<exists>p \<in> set excludePatterns. matchPattern rx path p = Inr True)))"
  proof (cases "item_path item")
    case None
    then show ?thesis by (simp add: isMatchingFile_def)
  next
    case (Some path)
    with ok have inc: "some_pattern rx path includePatterns =
        Inr (\<exists>p \<in> set includePatterns. matchPattern rx path p = Inr True)"
      and exc: "some_pattern rx path excludePatterns =
        Inr (\<exists>p \<in> set excludePatterns. matchPattern rx path p = Inr True)"
      by (auto intro!: some_pattern_total)
    show ?thesis using Some by (simp add: isMatchingFile_def inc exc)
  qed
qed

text \<open>The amended claim C6 on the scenario of the specification: \<open>readme.md\<close> is kept
  for the include pattern \<open>*.md\<close>, \<open>a/b.md\<close> is not, and an exclude pattern that
  matches drops \<open>readme.md\<close>.\<close>

theorem isMatchingFile_eligible_witness:
  "isMatchingFile RegExp_test [''*.md''] []
     \<lparr>item_path = Some ''readme.md'', item_type = Some ''blob'', item_sha = Some ''s'', item_size = Some 0\<rparr> = Inr True \<and>
   isMatchingFile RegExp_test [''*.md''] []
     \<lparr>item_path = Some ''a/b.md'', item_type = Some ''blob'', item_sha = Some ''s'', item_size = Some 0\<rparr> = Inr False \<and>
   isMatchingFile RegExp_test [''*.md''] [''read*'']
     \<lparr>item_path = Some ''readme.md'', item_type = Some ''blob'', item_sha = Some ''s'', item_size = Some 0\<rparr> = Inr False"
proof -
  have m: "matchPattern RegExp_test ''readme.md'' ''*.md'' = Inr True"
    "matchPattern RegExp_test ''a/b.md'' ''*.md'' = Inr False"
    "matchPattern RegExp_test ''readme.md'' ''read*'' = Inr True"
    by (simp_all add: rx_eval)
  show ?thesis
    using isMatchingFile_eligible[of RegExp_test "[]" "\<lparr>item_path = Some ''readme.md'', item_type = Some ''blob'', item_sha = Some ''s'', item_size = Some 0\<rparr>" "[''*.md'']"]
      isMatchingFile_eligible[of RegExp_test "[]" "\<lparr>item_path = Some ''a/b.md'', item_type = Some ''blob'', item_sha = Some ''s'', item_size = Some 0\<rparr>" "[''*.md'']"]
      isMatchingFile_eligible[of RegExp_test "[''read*'']" "\<lparr>item_path = Some ''readme.md'', item_type = Some ''blob'', item_sha = Some ''s'', item_size = Some 0\<rparr>" "[''*.md'']"]
    by (auto simp: m)
qed

section \<open>The blocklist: the claims\<close>

text \<open>
  Claim C4 as stated (loading recomputes the hash of every entry and flags a mismatch as
  a warning) fails: \<open>loadBlocklist\<close> reads the file and validates it against the
  schema, for which the hash is any string. A file whose entry carries the hash
  \<open>tampered\<close>, which is the hash of no entry, loads with that hash, and the console is
  as empty as before.
\<close>

theorem loadBlocklist_tampered_counterexample:
  "\<not> prefix ''sha256:'' ''tampered'' \<and>
   calculateHash example_digest example_entry \<noteq> ''tampered'' \<and>
   loadBlocklist example_is_datetime (example_storage ''tampered'') =
     (Inr \<lparr>bl_version = ''1.0.0'', lastUpdated = ''2025-01-02T00:00:00.000Z'',
           entries = [entry_shape ''2025-01-01T00:00:00.000Z'' ''server'' (Some ''x'') None None
                        ''bad'' ''tampered'' False ''user'']\<rparr>,
      example_storage ''tampered'') \<and>
   console (example_storage ''tampered'') = []"
  by code_simp

text \<open>
  Claim C4, amended: loading the blocklist changes nothing in the state, the console
  included, and does not look at the hashes. When a blocklist file loads, every loaded
  entry carries the hash string of the file; and the same file with any other strings in
  the place of the hashes loads as well, to the same blocklist with those strings as
  hashes. A hash mismatch neither aborts the load nor is it flagged.
\<close>

theorem loadBlocklist_no_verification:
  "snd (loadBlocklist is_datetime st) = st \<and>
   (fst (loadBlocklist is_datetime (st\<lparr>blocklist_file := Some (stored_blocklist version updated es)\<rparr>))
        = Inr blocklist \<and> length hashes = length es \<longrightarrow>
      map (\<lambda>e. obj_get e ''hash'') (entries blocklist) = map (\<lambda>(e, h). JStr h) es \<and>
      fst (loadBlocklist is_datetime
             (st\<lparr>blocklist_file := Some (stored_blocklist version updated (zip (map fst es) hashes))\<rparr>)) =
        Inr (blocklist\<lparr>entries := map (\<lambda>(e, h). with_hash e h) (zip (entries blocklist) hashes)\<rparr>))"
proof (intro conjI impI, goal_cases)
  case 1
  show ?case by (rule loadBlocklist_state)
next
  case 2
  then obtain v u ps where v: "z_string_default ''1.0.0'' version = Inr v"
    and u: "z_datetime is_datetime updated = Inr u"
    and ps: "parse_entries is_datetime (map (\<lambda>(e, h). JObj (with_hash e h)) es) = Inr ps"
    and bl: "blocklist = \<lparr>bl_version = v, lastUpdated = u, entries = ps\<rparr>"
    unfolding loadBlocklist_file stored_blocklist_def BlocklistSchema_parse_iff by blast
  from 2 have len: "length hashes = length es" by simp
  from parse_entries_with_hash[OF ps len] show ?case by (simp add: bl)
next
  case 3
  then obtain v u ps where v: "z_string_default ''1.0.0'' version = Inr v"
    and u: "z_datetime is_datetime updated = Inr u"
    and ps: "parse_entries is_datetime (map (\<lambda>(e, h). JObj (with_hash e h)) es) = Inr ps"
    and bl: "blocklist = \<lparr>bl_version = v, lastUpdated = u, entries = ps\<rparr>"
    unfolding loadBlocklist_file stored_blocklist_def BlocklistSchema_parse_iff by blast
  from 3 have len: "length hashes = length es" by simp
  from parse_entries_with_hash[OF ps len] v u show ?case
    unfolding loadBlocklist_file stored_blocklist_def BlocklistSchema_parse_iff
    by (simp add: bl)
qed

text \<open>The amended claim C4 on the example: the file with the hash \<open>tampered\<close> loads, and
  so does the file with the hash that \<open>calculateHash\<close> gives, to the same entry but for
  the hash.\<close>

theorem loadBlocklist_no_verification_witness:
  "fst (loadBlocklist example_is_datetime (example_storage ''tampered'')) =
     Inr \<lparr>bl_version = ''1.0.0'', lastUpdated = ''2025-01-02T00:00:00.000Z'',
          entries = [entry_shape ''2025-01-01T00:00:00.000Z'' ''server'' (Some ''x'') None None
                       ''bad'' ''tampered'' False ''user'']\<rparr> \<and>
   fst (loadBlocklist example_is_datetime (example_storage (calculateHash example_digest example_entry))) =
     Inr \<lparr>bl_version = ''1.0.0'', lastUpdated = ''2025-01-02T00:00:00.000Z'',
          entries = [entry_shape ''2025-01-01T00:00:00.000Z'' ''server'' (Some ''x'') None None
                       ''bad'' (calculateHash example_digest example_entry) False ''user'']\<rparr>"
proof -
  let ?e = "filter (\<lambda>(k, v). v \<noteq> JUndefined) example_entry"
  let ?bl = "\<lparr>bl_version = ''1.0.0'', lastUpdated = ''2025-01-02T00:00:00.000Z'',
          entries = [entry_shape ''2025-01-01T00:00:00.000Z'' ''server'' (Some ''x'') None None
                       ''bad'' ''tampered'' False ''user'']\<rparr>"
  have st: "example_storage h = (example_storage h)\<lparr>blocklist_file :=
      Some (stored_blocklist (JStr ''1.0.0'') (JStr ''2025-01-02T00:00:00.000Z'') [(?e, h)])\<rparr>" for h
    by (simp add: example_storage_def)
  have l: "fst (loadBlocklist example_is_datetime (example_storage ''tampered'')) = Inr ?bl"
    by code_simp
  have l': "fst (loadBlocklist example_is_datetime ((example_storage ''tampered'')\<lparr>blocklist_file :=
      Some (stored_blocklist (JStr ''1.0.0'') (JStr ''2025-01-02T00:00:00.000Z'') [(?e, ''tampered'')])\<rparr>)) = Inr ?bl"
    using l st[of "''tampered''"] by simp
  have s2: "(example_storage ''tampered'')\<lparr>blocklist_file :=
      Some (stored_blocklist (JStr ''1.0.0'') (JStr ''2025-01-02T00:00:00.000Z'') [(?e, h)])\<rparr> = example_storage h" for h
    by (simp add: example_storage_def)
  from loadBlocklist_no_verification[of example_is_datetime "example_storage ''tampered''"
      "JStr ''1.0.0''" "JStr ''2025-01-02T00:00:00.000Z''" "[(?e, ''tampered'')]" ?bl
      "[calculateHash example_digest example_entry]"] l'
  have "fst (loadBlocklist example_is_datetime (example_storage (calculateHash example_digest example_entry))) =
     Inr (?bl\<lparr>entries := [with_hash (entry_shape ''2025-01-01T00:00:00.000Z'' ''server'' (Some ''x'') None None
                       ''bad'' ''tampered'' False ''user'') (calculateHash example_digest example_entry)]\<rparr>)"
    by (simp add: s2)
  then show ?thesis using l by (simp add: with_hash_entry_shape)
qed

text \<open>
  Claim C8: the hash of an entry depends on the fields of the entry alone, not on their
  order in the object: two objects with distinct keys and the same properties have the
  same hash. The hash that the entry pushed carries is the hash of its fields other than
  \<open>hash\<close>. When the same entry is appended twice, at any two times, and the blocklist
  is loaded afterwards, its last two entries carry the same hash, the hash of the entry
  without a field \<open>hash\<close>. This holds for every digest function.
\<close>

theorem addBlocklistEntry_hash:
  "(distinct (Object_keys e1) \<and> distinct (Object_keys e2) \<and> set e1 = set e2 \<longrightarrow>
      calculateHash sha256_hex e1 = calculateHash sha256_hex e2) \<and>
   (''hash'' \<notin> set (Object_keys entry) \<longrightarrow>
      filter (\<lambda>(k, v). k \<noteq> ''hash'') (fullEntry sha256_hex entry) = entry \<and>
      obj_get (fullEntry sha256_hex entry) ''hash'' =
        JStr (calculateHash sha256_hex (filter (\<lambda>(k, v). k \<noteq> ''hash'') (fullEntry sha256_hex entry)))) \<and>
   (distinct (Object_keys entry) \<and>
    addBlocklistEntry is_datetime sha256_hex now1 st entry = Inr st1 \<and>
    addBlocklistEntry is_datetime sha256_hex now2 st1 entry = Inr st2 \<and>
    fst (loadBlocklist is_datetime st2) = Inr blocklist \<longrightarrow>
      (\<exists>es a b. entries blocklist = es @ [a, b] \<and>
         obj_get a ''hash'' = JStr (calculateHash sha256_hex entry) \<and>
         obj_get b ''hash'' = JStr (calculateHash sha256_hex entry)))"
proof (intro conjI impI, goal_cases)
  case 1
  then have "canonical_json e1 = canonical_json e2" by (intro canonical_json_cong) simp_all
  then show ?case by (simp add: calculateHash_def)
next
  case 2
  then show ?case by (simp add: fullEntry_def Object_keys_def filter_map_set_fresh)
next
  case 3
  then have "filter (\<lambda>(k, v). k \<noteq> ''hash'') (fullEntry sha256_hex entry) = entry"
    by (simp add: fullEntry_def Object_keys_def filter_map_set_fresh)
  then show ?case by (simp add: fullEntry_hash(1))
next
  case 4
  let ?J = "\<lambda>e. JObj (filter (\<lambda>(k, v). v \<noteq> JUndefined) e)"
  let ?full = "fullEntry sha256_hex entry"
  from 4 have d: "distinct (Object_keys entry)" by simp
  from 4 addBlocklistEntry_Inr obtain bl0 where
    st1: "st1 = st\<lparr>blocklist_file := Some (blocklist_json
                    (bl0\<lparr>entries := entries bl0 @ [?full], lastUpdated := now1\<rparr>))\<rparr>"
    by blast
  from 4 addBlocklistEntry_Inr obtain bl1 where l1: "fst (loadBlocklist is_datetime st1) = Inr bl1"
    and st2: "st2 = st1\<lparr>blocklist_file := Some (blocklist_json
                    (bl1\<lparr>entries := entries bl1 @ [?full], lastUpdated := now2\<rparr>))\<rparr>"
    by blast
  from load_after_save[OF l1[unfolded st1]]
  have "parse_entries is_datetime (map ?J (entries bl0) @ [?J ?full]) = Inr (entries bl1)" by simp
  from parse_entries_append[OF this] obtain ps0 a1 where
    bl1: "entries bl1 = ps0 @ [a1]" and a1: "BlocklistEntrySchema_parse is_datetime (?J ?full) = Inr a1"
    by blast
  from parsed_saved_hash[OF a1 fullEntry_hash(2)[OF d]]
  have a1h: "obj_get a1 ''hash'' = JStr (calculateHash sha256_hex entry)" and a1d: "distinct (map fst a1)"
    by (simp_all add: fullEntry_hash(1))
  from 4 have l2: "fst (loadBlocklist is_datetime st2) = Inr blocklist" by simp
  from load_after_save[OF l2[unfolded st2]]
  have "parse_entries is_datetime ((map ?J ps0 @ [?J a1]) @ [?J ?full]) = Inr (entries blocklist)"
    by (simp add: bl1)
  from parse_entries_append[OF this] obtain qs b where
    q: "entries blocklist = qs @ [b]" and qs: "parse_entries is_datetime (map ?J ps0 @ [?J a1]) = Inr qs"
    and b: "BlocklistEntrySchema_parse is_datetime (?J ?full) = Inr b"
    by blast
  from parse_entries_append[OF qs] obtain rs a where
    r: "qs = rs @ [a]" and a: "BlocklistEntrySchema_parse is_datetime (?J a1) = Inr a"
    by blast
  from parsed_saved_hash(1)[OF a a1d] a1h
  have ah: "obj_get a ''hash'' = JStr (calculateHash sha256_hex entry)" by simp
  from parsed_saved_hash(1)[OF b fullEntry_hash(2)[OF d]]
  have bh: "obj_get b ''hash'' = JStr (calculateHash sha256_hex entry)" by (simp add: fullEntry_hash(1))
  show ?case using q r ah bh by (intro exI[of _ rs] exI[of _ a] exI[of _ b]) simp
qed

text \<open>Claim C8 on the example entry: appended twice to an empty blocklist; and hashed
  with its fields in the reverse order.\<close>

theorem addBlocklistEntry_hash_witness:
  "distinct (Object_keys example_entry) \<and>
   addBlocklistEntry example_is_datetime example_digest ''2025-01-03T00:00:00.000Z'' empty_storage example_entry =
     Inr (projr (addBlocklistEntry example_is_datetime example_digest ''2025-01-03T00:00:00.000Z''
                   empty_storage example_entry)) \<and>
   calculateHash example_digest (rev example_entry) = calculateHash example_digest example_entry \<and>
   map (\<lambda>e. obj_get e ''hash'')
     (entries (projr (fst (loadBlocklist example_is_datetime
        (projr (addBlocklistEntry example_is_datetime example_digest ''2025-01-04T00:00:00.000Z''
           (projr (addBlocklistEntry example_is_datetime example_digest ''2025-01-03T00:00:00.000Z''
                     empty_storage example_entry))
           example_entry)))))) =
     [JStr (calculateHash example_digest example_entry), JStr (calculateHash example_digest example_entry)]"
proof -
  let ?r1 = "addBlocklistEntry example_is_datetime example_digest ''2025-01-03T00:00:00.000Z''
                   empty_storage example_entry"
  let ?r2 = "addBlocklistEntry example_is_datetime example_digest ''2025-01-04T00:00:00.000Z''
                   (projr ?r1) example_entry"
  let ?l = "fst (loadBlocklist example_is_datetime (projr ?r2))"
  have d: "distinct (Object_keys example_entry)" by code_simp
  have dr: "distinct (Object_keys (rev example_entry))" by code_simp
  have sr: "set (rev example_entry) = set example_entry" by simp
  have r1: "?r1 = Inr (projr ?r1)" by code_simp
  have r2: "?r2 = Inr (projr ?r2)" by code_simp
  have l: "?l = Inr (projr ?l)" by code_simp
  have n: "length (entries (projr ?l)) = 2" by code_simp
  from addBlocklistEntry_hash[of "rev example_entry" example_entry example_digest example_entry
      example_is_datetime "''2025-01-03T00:00:00.000Z''" empty_storage "projr ?r1"
      "''2025-01-04T00:00:00.000Z''" "projr ?r2" "projr ?l"] d dr sr r1 r2 l
  have c: "calculateHash example_digest (rev example_entry) = calculateHash example_digest example_entry"
    and "\<exists>es a b. entries (projr ?l) = es @ [a, b] \<and>
         obj_get a ''hash'' = JStr (calculateHash example_digest example_entry) \<and>
         obj_get b ''hash'' = JStr (calculateHash example_digest example_entry)"
    by blast+
  then obtain es a b where e: "entries (projr ?l) = es @ [a, b]"
    and h: "obj_get a ''hash'' = JStr (calculateHash example_digest example_entry)"
      "obj_get b ''hash'' = JStr (calculateHash example_digest example_entry)"
    by blast
  from e n have "es = []" by simp
  with e h have "map (\<lambda>e. obj_get e ''hash'') (entries (projr ?l)) =
     [JStr (calculateHash example_digest example_entry), JStr (calculateHash example_digest example_entry)]"
    by simp
  with d r1 c show ?thesis by blast
qed

section \<open>The synchronisation: the claims\<close>

text \<open>
  Claim C9: when the cache directory, the tree and the patterns of a repository are
  fine, \<open>fetchFilesFromRepo\<close> returns the documents of all matching files whose blob
  can be fetched, each file on its own: a blob that fails takes nothing away from the
  other files. When the cache directory, the tree or a pattern fails, the repository
  gives the empty list. A pass over a configuration that loads always ends, whatever the
  provider answers; the index after the pass is the index before it (the empty index for
  a forced pass) with the documents of every repository of the pass added in order, so
  its ids are the ids from before and the ids of all these documents; and the console
  shows that every repository of the pass has been fetched.
\<close>

theorem sync_failure_isolation:
  "(ensureRepoDir env owner repo \<and> getTree env owner repo br = Inr tree \<and>
    matchingFiles rx inc exc tree = Inr files \<longrightarrow>
      fst (fetchFilesFromRepo env rx owner repo br inc exc) =
        List.map_filter (file_document env owner repo br) files) \<and>
   (\<not> ensureRepoDir env owner repo \<or> (\<exists>e. getTree env owner repo br = Inl e) \<or>
    (\<exists>t e. getTree env owner repo br = Inr t \<and> matchingFiles rx inc exc t = Inl e) \<longrightarrow>
      fst (fetchFilesFromRepo env rx owner repo br inc exc) = []) \<and>
   (loadConfig = Inr config \<longrightarrow>
      (\<exists>srv'. syncKnowledgeBase env rx True loadConfig force srv = Inr srv' \<and>
         srv_documents srv' =
           fold (\<lambda>source docs. addDocuments docs (batch env rx source)) (pass_sources env config)
             (if force then [] else srv_documents srv) \<and>
         fst ` set (srv_documents srv') =
           (if force then {} else fst ` set (srv_documents srv)) \<union>
           (\<Union>source \<in> set (pass_sources env config). doc_id ` set (batch env rx source)) \<and>
         (\<forall>(o', r', rest) \<in> set (pass_sources env config).
            FetchingFiles o' r' \<in> set (srv_console srv'))))"
proof (intro conjI impI, goal_cases)
  case 1
  then show ?case by (simp add: fetchFilesFromRepo_docs)
next
  case 2
  then show ?case by (auto simp: fetchFilesFromRepo_docs)
next
  case 3
  from syncKnowledgeBase_documents[OF 3, of env rx force srv] obtain srv' where
    s: "syncKnowledgeBase env rx True loadConfig force srv = Inr srv'"
    and d: "srv_documents srv' =
           fold (\<lambda>source docs. addDocuments docs (batch env rx source)) (pass_sources env config)
             (if force then [] else srv_documents srv)"
    by blast
  have k: "fst ` set (srv_documents srv') =
           (if force then {} else fst ` set (srv_documents srv)) \<union>
           (\<Union>source \<in> set (pass_sources env config). doc_id ` set (batch env rx source))"
    unfolding d keys_fold_batches by simp
  have c: "\<forall>(o', r', rest) \<in> set (pass_sources env config). FetchingFiles o' r' \<in> set (srv_console srv')"
    using syncKnowledgeBase_console[OF 3 s] by auto
  show ?case using s d k c by blast
qed

text \<open>Claim C9 on the example: the blob of \<open>b.md\<close> fails and the tree of \<open>o/b\<close>
  fails, as does the discovery of the repositories of the user; the pass indexes the
  other two files of \<open>o/a\<close> and the file of \<open>o/c\<close>.\<close>

theorem sync_failure_isolation_witness:
  "map doc_id (fst (fetchFilesFromRepo example_env RegExp_test ''o'' ''a'' ''main'' [''*.md''] [])) =
     [''o/a/main/a.md'', ''o/a/main/c.md''] \<and>
   fst (fetchFilesFromRepo example_env RegExp_test ''o'' ''b'' ''main'' [''*.md''] []) = [] \<and>
   (\<exists>srv'. syncKnowledgeBase example_env RegExp_test True (Inr example_config) False
              \<lparr>srv_documents = [], srv_console = []\<rparr> = Inr srv' \<and>
           map fst (srv_documents srv') = [''o/a/main/a.md'', ''o/a/main/c.md'', ''o/c/main/x.md''] \<and>
           FetchingFiles ''o'' ''c'' \<in> set (srv_console srv'))"
proof -
  let ?tree = "[example_blob_item ''a.md'' ''s1'', example_blob_item ''b.md'' ''s2'',
                example_blob_item ''c.md'' ''s3'']"
  let ?srv = "\<lparr>srv_documents = [], srv_console = []\<rparr>"
  have a1: "ensureRepoDir example_env ''o'' ''a''" by code_simp
  have a2: "getTree example_env ''o'' ''a'' ''main'' = Inr ?tree" by code_simp
  have a3: "matchingFiles RegExp_test [''*.md''] [] ?tree = Inr ?tree" by code_simp
  have a4: "map doc_id (List.map_filter (file_document example_env ''o'' ''a'' ''main'') ?tree) =
      [''o/a/main/a.md'', ''o/a/main/c.md'']" by code_simp
  have b1: "getTree example_env ''o'' ''b'' ''main'' = Inl ProviderError" by code_simp
  have p: "(''o'', ''c'', ''main'', [''*.md''], []) \<in> set (pass_sources example_env example_config)"
    by code_simp
  have e: "map fst (fold (\<lambda>source docs. addDocuments docs (batch example_env RegExp_test source))
      (pass_sources example_env example_config) []) = [''o/a/main/a.md'', ''o/a/main/c.md'', ''o/c/main/x.md'']"
    by code_simp
  from sync_failure_isolation[of example_env "''o''" "''a''" "''main''" ?tree RegExp_test "[''*.md'']" "[]"
      ?tree "Inr example_config" example_config False ?srv] a1 a2 a3 a4
  have A: "map doc_id (fst (fetchFilesFromRepo example_env RegExp_test ''o'' ''a'' ''main'' [''*.md''] [])) =
     [''o/a/main/a.md'', ''o/a/main/c.md'']"
    by simp
  from sync_failure_isolation[of example_env "''o''" "''b''" "''main''" ?tree RegExp_test "[''*.md'']" "[]"
      ?tree "Inr example_config" example_config False ?srv] b1
  have B: "fst (fetchFilesFromRepo example_env RegExp_test ''o'' ''b'' ''main'' [''*.md''] []) = []"
    by simp
  from sync_failure_isolation[of example_env "''o''" "''b''" "''main''" ?tree RegExp_test "[''*.md'']" "[]"
      ?tree "Inr example_config" example_config False ?srv]
  obtain srv' where s: "syncKnowledgeBase example_env RegExp_test True (Inr example_config) False ?srv = Inr srv'"
    and d: "srv_documents srv' =
           fold (\<lambda>source docs. addDocuments docs (batch example_env RegExp_test source))
             (pass_sources example_env example_config) []"
    and c: "\<forall>(o', r', rest) \<in> set (pass_sources example_env example_config).
            FetchingFiles o' r' \<in> set (srv_console srv')"
    by auto
  from c p have "FetchingFiles ''o'' ''c'' \<in> set (srv_console srv')" by blast
  with s d e A B show ?thesis by auto
qed

end
